theory Spec2Isabelle
  imports Main "HOL-Library.Word"
begin

section \<open>Machine types and kernel constants\<close>

text \<open>
  The driver \<^verbatim>\<open>ringbuf.c\<close> (its text follows the header in \<^verbatim>\<open>kernel/common.h\<close>) is built
  for a 64-bit kernel: \<^verbatim>\<open>size_t\<close>, \<^verbatim>\<open>ssize_t\<close> and
  \<^verbatim>\<open>long\<close> are 64-bit words, \<^verbatim>\<open>int\<close> is a 32-bit word, a \<^verbatim>\<open>char\<close> is a byte.
  Words add, subtract and compare (\<open><\<close>, \<open>\<le>\<close>) as unsigned values; where the C code
  compares signed values (\<^verbatim>\<open>ks <= 0\<close>, \<^verbatim>\<open>ret > 0\<close>) the model reads the word with \<open>sint\<close>.
\<close>

type_synonym byte = "8 word"
type_synonym size_t = "64 word"
type_synonym ssize_t = "64 word"
type_synonym c_int = "32 word"
type_synonym c_long = "64 word"

text \<open>
  The errno numbers are those of the kernel headers the driver includes
  (\<^verbatim>\<open>errno-base.h\<close>, \<^verbatim>\<open>errno.h\<close>); they are used at type \<^verbatim>\<open>int\<close> and at
  type \<^verbatim>\<open>long\<close>, so the constants are polymorphic in the width.
\<close>

definition ENOMEM :: "'a::len word" where "ENOMEM = 12"
definition EFAULT :: "'a::len word" where "EFAULT = 14"
definition EINVAL :: "'a::len word" where "EINVAL = 22"
definition ENOSPC :: "'a::len word" where "ENOSPC = 28"
definition ERESTARTSYS :: "'a::len word" where "ERESTARTSYS = 512"

text \<open>
  What goes wrong in C when an operation is run outside its precondition: the machine
  traps. The embedding makes each trap a value, so that "the trap is unreachable" is a
  theorem and not an assumption.
\<close>

datatype fault = NullDeref | OutOfBounds | DivByZero

section \<open>The ring buffer\<close>

text \<open>
  \<^verbatim>\<open>struct ringbuf\<close> with its data fields. \<open>buf\<close> is \<open>None\<close> for the \<^verbatim>\<open>NULL\<close> pointer and
  \<open>Some bs\<close> for a pointer to an allocated region holding the bytes \<open>bs\<close>. The field
  \<^verbatim>\<open>size\<close> is named \<open>size_rb\<close> here. The wait queue and the mutex carry no data.
\<close>

record ringbuf =
  buf :: "byte list option"
  size_rb :: size_t
  head :: size_t
  tail :: size_t
  count :: size_t

text \<open>\<^verbatim>\<open>static struct ringbuf rb;\<close> is zero-initialised when the module is loaded.\<close>

definition rb_static :: ringbuf where
  "rb_static = \<lparr>buf = None, size_rb = 0, head = 0, tail = 0, count = 0\<rparr>"

text \<open>
  \<^verbatim>\<open>kmalloc(sz, GFP_KERNEL)\<close> either fails (\<open>None\<close>) or returns a fresh region of
  exactly \<open>sz\<close> bytes whose contents are not initialised: the heap argument supplies
  whatever those bytes happen to be.
\<close>

definition kmalloc :: "(nat \<Rightarrow> byte) option \<Rightarrow> size_t \<Rightarrow> byte list option" where
  "kmalloc heap sz = map_option (\<lambda>junk. map junk [0..<unat sz]) heap"

definition ringbuf_init :: "(nat \<Rightarrow> byte) option \<Rightarrow> size_t \<Rightarrow> ringbuf \<Rightarrow> ringbuf \<times> c_int" where
  "ringbuf_init heap sz rb =
     (if sz = 0 then (rb, - EINVAL)
      else case kmalloc heap sz of
             None \<Rightarrow> (rb\<lparr>buf := None\<rparr>, - ENOMEM)
           | Some bs \<Rightarrow>
               (rb\<lparr>buf := Some bs, size_rb := sz, head := 0, tail := 0, count := 0\<rparr>, 0))"

definition ringbuf_free :: "ringbuf \<Rightarrow> ringbuf" where
  "ringbuf_free rb = rb\<lparr>buf := None, size_rb := 0, head := 0, tail := 0, count := 0\<rparr>"

text \<open>
  The loop of \<^verbatim>\<open>ringbuf_push_locked\<close>, from counter \<open>i\<close> on:
  \<^verbatim>\<open>for (; i < len; ++i) { rb.buf[rb.tail] = kdata[i]; rb.tail = (rb.tail + 1) % rb.size; }\<close>
  Reading \<^verbatim>\<open>kdata[i]\<close> past the caller's region, writing through a \<^verbatim>\<open>NULL\<close> or past the
  end of \<open>buf\<close>, and \<^verbatim>\<open>% 0\<close> are the traps.
\<close>

function push_loop :: "byte list \<Rightarrow> size_t \<Rightarrow> size_t \<Rightarrow> ringbuf \<Rightarrow> fault + ringbuf" where
  "push_loop kdata len i rb =
     (if i < len then
        (if length kdata \<le> unat i then Inl OutOfBounds
         else case buf rb of
                None \<Rightarrow> Inl NullDeref
              | Some bs \<Rightarrow>
                  if length bs \<le> unat (tail rb) then Inl OutOfBounds
                  else if size_rb rb = 0 then Inl DivByZero
                  else push_loop kdata len (i + 1)
                         (rb\<lparr>buf := Some (bs[unat (tail rb) := kdata ! unat i]),
                             tail := (tail rb + 1) mod size_rb rb\<rparr>))
      else Inr rb)"
  by pat_completeness auto
termination
proof (relation "measure (\<lambda>(kdata, len, i, rb). unat len - unat i)")
  show "wf (measure (\<lambda>(kdata, len, i, rb). unat len - unat i))"
    by simp
next
  fix kdata :: "byte list" and len i :: size_t and rb :: ringbuf and bs :: "byte list"
  assume "i < len"
  then have "unat (i + 1) = Suc (unat i)"
    by unat_arith
  moreover from \<open>i < len\<close> have "unat i < unat len"
    by (simp add: word_less_nat_alt)
  ultimately show "((kdata, len, i + 1,
       rb\<lparr>buf := Some (bs[unat (tail rb) := kdata ! unat i]),
          tail := (tail rb + 1) mod size_rb rb\<rparr>), kdata, len, i, rb)
      \<in> measure (\<lambda>(kdata, len, i, rb). unat len - unat i)"
    by simp
qed

text \<open>
  \<^verbatim>\<open>ringbuf_push_locked(kdata, len)\<close>: the new state and the returned \<^verbatim>\<open>ssize_t\<close>.
  The space check subtracts and compares as \<^verbatim>\<open>size_t\<close>.
\<close>

definition ringbuf_push_locked ::
    "byte list \<Rightarrow> size_t \<Rightarrow> ringbuf \<Rightarrow> fault + (ringbuf \<times> ssize_t)" where
  "ringbuf_push_locked kdata len rb =
     (if size_rb rb - count rb < len then Inr (rb, - ENOSPC)
      else case push_loop kdata len 0 rb of
             Inl f \<Rightarrow> Inl f
           | Inr rb' \<Rightarrow> Inr (rb'\<lparr>count := count rb' + len\<rparr>, len))"

text \<open>
  The loop of \<^verbatim>\<open>ringbuf_pop_locked\<close>, from counter \<open>i\<close> on:
  \<^verbatim>\<open>for (; i < tocopy; ++i) { out[i] = rb.buf[rb.head]; rb.head = (rb.head + 1) % rb.size; }\<close>
\<close>

function pop_loop :: "size_t \<Rightarrow> size_t \<Rightarrow> byte list \<Rightarrow> ringbuf \<Rightarrow> fault + (byte list \<times> ringbuf)" where
  "pop_loop tocopy i out rb =
     (if i < tocopy then
        (case buf rb of
           None \<Rightarrow> Inl NullDeref
         | Some bs \<Rightarrow>
             if length bs \<le> unat (head rb) then Inl OutOfBounds
             else if length out \<le> unat i then Inl OutOfBounds
             else if size_rb rb = 0 then Inl DivByZero
             else pop_loop tocopy (i + 1) (out[unat i := bs ! unat (head rb)])
                    (rb\<lparr>head := (head rb + 1) mod size_rb rb\<rparr>))
      else Inr (out, rb))"
  by pat_completeness auto
termination
proof (relation "measure (\<lambda>(tocopy, i, out, rb). unat tocopy - unat i)")
  show "wf (measure (\<lambda>(tocopy, i, out, rb). unat tocopy - unat i))"
    by simp
next
  fix tocopy i :: size_t and out :: "byte list" and rb :: ringbuf and bs :: "byte list"
  assume "i < tocopy"
  then have "unat (i + 1) = Suc (unat i)"
    by unat_arith
  moreover from \<open>i < tocopy\<close> have "unat i < unat tocopy"
    by (simp add: word_less_nat_alt)
  ultimately show "((tocopy, i + 1, out[unat i := bs ! unat (head rb)],
       rb\<lparr>head := (head rb + 1) mod size_rb rb\<rparr>), tocopy, i, out, rb)
      \<in> measure (\<lambda>(tocopy, i, out, rb). unat tocopy - unat i)"
    by simp
qed

text \<open>
  \<^verbatim>\<open>ringbuf_pop_locked(out, len)\<close>: the new state, the caller's region \<open>out\<close> after the
  copy, and the returned \<^verbatim>\<open>ssize_t\<close>.
\<close>

definition ringbuf_pop_locked ::
    "byte list \<Rightarrow> size_t \<Rightarrow> ringbuf \<Rightarrow> fault + (ringbuf \<times> byte list \<times> ssize_t)" where
  "ringbuf_pop_locked out len rb =
     (let tocopy = (if count rb < len then count rb else len) in
      case pop_loop tocopy 0 out rb of
        Inl f \<Rightarrow> Inl f
      | Inr (out', rb') \<Rightarrow> Inr (rb'\<lparr>count := count rb' - tocopy\<rparr>, out', tocopy))"

section \<open>The ioctl handler\<close>

text \<open>
  \<^verbatim>\<open>struct queue_data\<close> of \<^verbatim>\<open>common.h\<close>; the field \<^verbatim>\<open>length\<close> is named \<open>length_qd\<close> here,
  and \<open>data\<close> is the user-space address.
\<close>

record queue_data =
  length_qd :: c_int
  data :: "64 word"

text \<open>
  The three command numbers are built by the \<^verbatim>\<open>_IOW\<close> and \<^verbatim>\<open>_IOR\<close> macros of
  \<^verbatim>\<open>linux/ioctl.h\<close>. The handler only switches on them, so a command is modelled by the
  \<^verbatim>\<open>case\<close> label it selects; every other value of \<^verbatim>\<open>cmd\<close> selects \<^verbatim>\<open>default\<close>.
\<close>

datatype opcode = SET_SIZE_OF_QUEUE | PUSH_DATA | POP_DATA | OTHER_CMD "32 word"

text \<open>
  What one call of the handler meets outside the ring buffer:
  \<^item> \<open>arg_int\<close>: the \<^verbatim>\<open>int\<close> that \<^verbatim>\<open>copy_from_user(&ks, arg, sizeof(int))\<close> reads, \<open>None\<close>
    when that copy fails;
  \<^item> \<open>arg_qd\<close>: the \<^verbatim>\<open>struct queue_data\<close> that \<^verbatim>\<open>copy_from_user(&ud, arg, sizeof(ud))\<close>
    reads, \<open>None\<close> when that copy fails;
  \<^item> \<open>arg_length_writable\<close>: whether \<^verbatim>\<open>put_user\<close> to \<^verbatim>\<open>arg->length\<close> succeeds;
  \<^item> \<open>user_region\<close>: the bytes of the caller's address space accessible at \<^verbatim>\<open>ud.data\<close>;
    a copy that reaches past them fails;
  \<^item> \<open>heap\<close>: what \<^verbatim>\<open>kmalloc\<close> does in this call (see \<open>kmalloc\<close>);
  \<^item> \<open>signal_pending\<close>: whether a signal interrupts \<^verbatim>\<open>wait_event_interruptible\<close>.
\<close>

record call_env =
  arg_int :: "c_int option"
  arg_qd :: "queue_data option"
  arg_length_writable :: bool
  user_region :: "byte list"
  heap :: "(nat \<Rightarrow> byte) option"
  signal_pending :: bool

text \<open>
  \<^verbatim>\<open>copy_from_user(to, from, n)\<close> and \<^verbatim>\<open>copy_to_user(to, from, n)\<close>: \<open>None\<close> when the
  copy fails (the C functions return nonzero), otherwise the destination after the copy.
  A copy that fails may have moved some bytes already. The scratch buffer is freed right
  after a failed copy, and what a failed \<^verbatim>\<open>copy_to_user\<close> left in the caller's region is
  not tracked: the handler reports the region as it was.
\<close>

definition copy_from_user :: "byte list \<Rightarrow> byte list \<Rightarrow> size_t \<Rightarrow> byte list option" where
  "copy_from_user kbuf region n =
     (if unat n \<le> length region then Some (take (unat n) region @ drop (unat n) kbuf) else None)"

definition copy_to_user :: "byte list \<Rightarrow> byte list \<Rightarrow> size_t \<Rightarrow> byte list option" where
  "copy_to_user region kbuf n =
     (if unat n \<le> length region then Some (take (unat n) kbuf @ drop (unat n) region) else None)"

text \<open>
  How a call of the handler ends: it returns a \<^verbatim>\<open>long\<close>, leaving the ring buffer, the
  caller's region at \<^verbatim>\<open>ud.data\<close> and possibly a new value of \<^verbatim>\<open>arg->length\<close> behind; or
  the kernel traps; or the caller sleeps in \<^verbatim>\<open>wait_event_interruptible\<close> and is never woken.
\<close>

datatype outcome =
    Return ringbuf c_long "byte list" "c_int option"
  | Trap fault
  | Blocked

text \<open>\<^verbatim>\<open>case SET_SIZE_OF_QUEUE:\<close>\<close>

definition ioctl_set_size :: "call_env \<Rightarrow> ringbuf \<Rightarrow> outcome" where
  "ioctl_set_size env rb =
     (case arg_int env of
        None \<Rightarrow> Return rb (- EFAULT) (user_region env) None
      | Some ks \<Rightarrow>
          if sint ks \<le> 0 then Return rb (- EINVAL) (user_region env) None
          else (case ringbuf_init (heap env) (scast ks) (ringbuf_free rb) of
                  (rb', ret) \<Rightarrow> Return rb' (scast ret) (user_region env) None))"

text \<open>\<^verbatim>\<open>case PUSH_DATA:\<close> Waking the readers changes no data.\<close>

definition ioctl_push_data :: "call_env \<Rightarrow> ringbuf \<Rightarrow> outcome" where
  "ioctl_push_data env rb =
     (case arg_qd env of
        None \<Rightarrow> Return rb (- EFAULT) (user_region env) None
      | Some ud \<Rightarrow>
          if sint (length_qd ud) \<le> 0 then Return rb (- EINVAL) (user_region env) None
          else (case kmalloc (heap env) (scast (length_qd ud)) of
                  None \<Rightarrow> Return rb (- ENOMEM) (user_region env) None
                | Some kbuf \<Rightarrow>
                    (case copy_from_user kbuf (user_region env) (scast (length_qd ud)) of
                       None \<Rightarrow> Return rb (- EFAULT) (user_region env) None
                     | Some kbuf' \<Rightarrow>
                         (case ringbuf_push_locked kbuf' (scast (length_qd ud)) rb of
                            Inl f \<Rightarrow> Trap f
                          | Inr (rb', ret) \<Rightarrow> Return rb' ret (user_region env) None))))"

text \<open>
  \<^verbatim>\<open>case POP_DATA:\<close> One caller runs at a time here. When \<^verbatim>\<open>rb.count\<close> is 0 the
  caller sleeps until \<^verbatim>\<open>rb.count > 0\<close>, which only another caller's push can bring about, or
  until a signal arrives: with a signal the call returns \<^verbatim>\<open>-ERESTARTSYS\<close>, without one it
  does not return.
\<close>

definition ioctl_pop_data :: "call_env \<Rightarrow> ringbuf \<Rightarrow> outcome" where
  "ioctl_pop_data env rb =
     (case arg_qd env of
        None \<Rightarrow> Return rb (- EFAULT) (user_region env) None
      | Some ud \<Rightarrow>
          if sint (length_qd ud) \<le> 0 then Return rb (- EINVAL) (user_region env) None
          else (case kmalloc (heap env) (scast (length_qd ud)) of
                  None \<Rightarrow> Return rb (- ENOMEM) (user_region env) None
                | Some kbuf \<Rightarrow>
                    if 0 < count rb then
                      (case ringbuf_pop_locked kbuf (scast (length_qd ud)) rb of
                         Inl f \<Rightarrow> Trap f
                       | Inr (rb', kbuf', ret) \<Rightarrow>
                           if 0 < sint ret then
                             (case copy_to_user (user_region env) kbuf' ret of
                                None \<Rightarrow> Return rb' (- EFAULT) (user_region env) None
                              | Some region' \<Rightarrow>
                                  if arg_length_writable env
                                  then Return rb' ret region' (Some (ucast ret))
                                  else Return rb' (- EFAULT) region' None)
                           else Return rb' ret (user_region env) None)
                    else if signal_pending env
                      then Return rb (- ERESTARTSYS) (user_region env) None
                      else Blocked))"

text \<open>\<^verbatim>\<open>ringbuf_ioctl\<close>: the \<^verbatim>\<open>switch (cmd)\<close>.\<close>

definition ringbuf_ioctl :: "opcode \<Rightarrow> call_env \<Rightarrow> ringbuf \<Rightarrow> outcome" where
  "ringbuf_ioctl cmd env rb =
     (case cmd of
        SET_SIZE_OF_QUEUE \<Rightarrow> ioctl_set_size env rb
      | PUSH_DATA \<Rightarrow> ioctl_push_data env rb
      | POP_DATA \<Rightarrow> ioctl_pop_data env rb
      | OTHER_CMD c \<Rightarrow> Return rb (- EINVAL) (user_region env) None)"

text \<open>
  A run of the driver: the calls are served one after the other, starting from some
  state of the buffer. The run yields the final state when every call returned.
\<close>

fun run_ioctls :: "(opcode \<times> call_env) list \<Rightarrow> ringbuf \<Rightarrow> ringbuf option" where
  "run_ioctls [] rb = Some rb"
| "run_ioctls ((cmd, env) # calls) rb =
     (case ringbuf_ioctl cmd env rb of
        Return rb' ret region len \<Rightarrow> run_ioctls calls rb'
      | Trap f \<Rightarrow> None
      | Blocked \<Rightarrow> None)"

section \<open>Vocabulary of the properties\<close>

text \<open>
  \<open>ring_slice bs n start m\<close>: the \<open>m\<close> bytes of the storage \<open>bs\<close> read from index
  \<open>start\<close> on, wrapping modulo \<open>n\<close>.
\<close>

definition ring_slice :: "'a list \<Rightarrow> nat \<Rightarrow> nat \<Rightarrow> nat \<Rightarrow> 'a list" where
  "ring_slice bs n start m = map (\<lambda>k. bs ! ((start + k) mod n)) [0..<m]"

text \<open>
  \<open>ring_write bs t xs\<close>: the storage \<open>bs\<close> after the bytes \<open>xs\<close> were written one by one
  from index \<open>t\<close> on, wrapping modulo the length of the storage.
\<close>

fun ring_write :: "'a list \<Rightarrow> nat \<Rightarrow> 'a list \<Rightarrow> 'a list" where
  "ring_write bs t [] = bs"
| "ring_write bs t (x # xs) = ring_write (bs[t := x]) (Suc t mod length bs) xs"

text \<open>The bytes a buffer holds, oldest first: \<open>count\<close> bytes from \<open>head\<close> on.\<close>

definition stored :: "ringbuf \<Rightarrow> byte list" where
  "stored rb =
     (case buf rb of
        None \<Rightarrow> []
      | Some bs \<Rightarrow> ring_slice bs (unat (size_rb rb)) (unat (head rb)) (unat (count rb)))"

text \<open>
  The invariant of the buffer. Without storage all four numbers are 0. With storage, the
  capacity is a positive \<^verbatim>\<open>int\<close> (it came through \<^verbatim>\<open>ks\<close>), the storage has exactly
  that many bytes, both indices are below the capacity, the count is at most the capacity,
  and \<open>tail\<close> is \<open>count\<close> places after \<open>head\<close>, modulo the capacity.
\<close>

definition rb_inv :: "ringbuf \<Rightarrow> bool" where
  "rb_inv rb =
     (case buf rb of
        None \<Rightarrow> size_rb rb = 0 \<and> head rb = 0 \<and> tail rb = 0 \<and> count rb = 0
      | Some bs \<Rightarrow>
          0 < size_rb rb \<and> unat (size_rb rb) < 2 ^ 31 \<and> length bs = unat (size_rb rb) \<and>
          head rb < size_rb rb \<and> tail rb < size_rb rb \<and> count rb \<le> size_rb rb \<and>
          unat (tail rb) = (unat (head rb) + unat (count rb)) mod unat (size_rb rb))"

section \<open>Example states\<close>

text \<open>
  A buffer of capacity 4 that holds one byte at index 2, with the write index at the last
  place of the storage: the next push of more than one byte wraps.
\<close>

definition rb_w :: ringbuf where
  "rb_w = \<lparr>buf = Some [9, 9, 7, 9], size_rb = 4, head = 2, tail = 3, count = 1\<rparr>"

text \<open>
  One caller's view for the examples: the size argument is 4, the request is for 3 bytes,
  the caller's region holds the bytes 1, 2, 3, every allocation succeeds and returns
  zeroed memory, and no signal arrives.
\<close>

definition env_w :: call_env where
  "env_w = \<lparr>arg_int = Some 4, arg_qd = Some \<lparr>length_qd = 3, data = 0\<rparr>,
            arg_length_writable = True, user_region = [1, 2, 3], heap = Some (\<lambda>_. 0),
            signal_pending = False\<rparr>"

text \<open>Set the size to 4, push 1 2 3, pop two bytes, push 1 2 3 again.\<close>

definition calls_w :: "(opcode \<times> call_env) list" where
  "calls_w = [(SET_SIZE_OF_QUEUE, env_w), (PUSH_DATA, env_w),
              (POP_DATA, env_w\<lparr>arg_qd := Some \<lparr>length_qd = 2, data = 0\<rparr>\<rparr>),
              (PUSH_DATA, env_w)]"

text \<open>The same caller when every allocation fails.\<close>

definition env_nomem :: call_env where
  "env_nomem = env_w\<lparr>heap := None\<rparr>"

text \<open>A caller whose size argument is 0 and whose request structure cannot be read.\<close>

definition env_zero :: call_env where
  "env_zero = \<lparr>arg_int = Some 0, arg_qd = None, arg_length_writable = False,
               user_region = [], heap = None, signal_pending = False\<rparr>"

text \<open>The caller asks for 3 bytes to be pushed but only 2 are readable at \<^verbatim>\<open>ud.data\<close>.\<close>

definition env_short :: call_env where
  "env_short = env_w\<lparr>user_region := [1, 2]\<rparr>"

text \<open>The caller passes the length -1.\<close>

definition env_neg :: call_env where
  "env_neg = env_w\<lparr>arg_qd := Some \<lparr>length_qd = - 1, data = 0\<rparr>\<rparr>"

section \<open>Circular indexing\<close>

text \<open>
  The equations of the two loops unfold without end, so they are applied by hand.
\<close>

declare push_loop.simps [simp del]
declare pop_loop.simps [simp del]

lemma mod_add_distinct:
  fixes h a b n :: nat
  assumes "a < b" "b < n"
  shows "(h + a) mod n \<noteq> (h + b) mod n"
proof
  assume "(h + a) mod n = (h + b) mod n"
  then have "n dvd (h + b) - (h + a)"
    using assms by (metis add_le_cancel_left less_imp_le mod_eq_dvd_iff_nat)
  then have "n dvd b - a" by simp
  moreover have "0 < b - a" "b - a < n" using assms by simp_all
  ultimately show False by (simp add: nat_dvd_not_less)
qed

lemma length_ring_write [simp]: "length (ring_write bs t xs) = length bs"
  by (induction xs arbitrary: bs t) simp_all

lemma length_ring_slice [simp]: "length (ring_slice bs n start m) = m"
  by (simp add: ring_slice_def)

lemma nth_ring_slice [simp]: "k < m \<Longrightarrow> ring_slice bs n start m ! k = bs ! ((start + k) mod n)"
  by (simp add: ring_slice_def)

lemma ring_write_other:
  assumes "t < length bs" and "\<forall>k<length xs. j \<noteq> (t + k) mod length bs"
  shows "ring_write bs t xs ! j = bs ! j"
  using assms
proof (induction xs arbitrary: bs t)
  case Nil
  then show ?case by simp
next
  case (Cons x xs)
  have "\<forall>k<length xs. j \<noteq> (Suc t mod length bs + k) mod length (bs[t := x])"
  proof (intro allI impI)
    fix k assume "k < length xs"
    then have "j \<noteq> (t + Suc k) mod length bs"
      using Cons.prems(2) by (metis length_Cons Suc_less_eq)
    then show "j \<noteq> (Suc t mod length bs + k) mod length (bs[t := x])"
      by (simp add: mod_add_left_eq)
  qed
  moreover have "Suc t mod length bs < length (bs[t := x])"
    using Cons.prems(1) by (cases "length bs") simp_all
  ultimately have "ring_write (bs[t := x]) (Suc t mod length bs) xs ! j = (bs[t := x]) ! j"
    using Cons.IH by blast
  moreover have "j \<noteq> t"
    using Cons.prems by (metis add.right_neutral length_Cons zero_less_Suc mod_less)
  ultimately show ?case
    by simp
qed

lemma ring_write_nth:
  assumes "t < length bs" and "length xs \<le> length bs" and "k < length xs"
  shows "ring_write bs t xs ! ((t + k) mod length bs) = xs ! k"
  using assms
proof (induction xs arbitrary: bs t k)
  case Nil
  then show ?case by simp
next
  case (Cons x xs)
  let ?n = "length bs"
  let ?bs1 = "bs[t := x]"
  let ?t1 = "Suc t mod ?n"
  have t1: "?t1 < length ?bs1"
    using Cons.prems(1) by (cases "length bs") simp_all
  show ?case
  proof (cases k)
    case 0
    have "\<forall>k'<length xs. t \<noteq> (?t1 + k') mod length ?bs1"
    proof (intro allI impI)
      fix k' assume "k' < length xs"
      then have "Suc k' < ?n"
        using Cons.prems(2) by simp
      then have "(t + 0) mod ?n \<noteq> (t + Suc k') mod ?n"
        by (intro mod_add_distinct) simp_all
      then show "t \<noteq> (?t1 + k') mod length ?bs1"
        using Cons.prems(1) by (simp add: mod_add_left_eq)
    qed
    then have "ring_write ?bs1 ?t1 xs ! t = ?bs1 ! t"
      using t1 by (intro ring_write_other) simp_all
    then show ?thesis
      using 0 Cons.prems(1) by simp
  next
    case (Suc k')
    then have "k' < length xs"
      using Cons.prems(3) by simp
    moreover have "length xs \<le> length ?bs1"
      using Cons.prems(2) by simp
    ultimately have "ring_write ?bs1 ?t1 xs ! ((?t1 + k') mod length ?bs1) = xs ! k'"
      using t1 Cons.IH by blast
    moreover have "(?t1 + k') mod length ?bs1 = (t + k) mod ?n"
      using Suc by (simp add: mod_add_left_eq)
    ultimately show ?thesis
      using Suc by simp
  qed
qed

lemma ring_slice_ring_write:
  assumes n: "length bs = n" and t: "t = (h + c) mod n" and fit: "c + length xs \<le> n" and "0 < n"
  shows "ring_slice (ring_write bs t xs) n h (c + length xs) = ring_slice bs n h c @ xs"
proof (rule nth_equalityI)
  show "length (ring_slice (ring_write bs t xs) n h (c + length xs)) = length (ring_slice bs n h c @ xs)"
    by simp
next
  fix idx assume "idx < length (ring_slice (ring_write bs t xs) n h (c + length xs))"
  then have idx: "idx < c + length xs" by simp
  have tn: "t < length bs" using t n \<open>0 < n\<close> by simp
  show "ring_slice (ring_write bs t xs) n h (c + length xs) ! idx = (ring_slice bs n h c @ xs) ! idx"
  proof (cases "idx < c")
    case True
    have "\<forall>k<length xs. (h + idx) mod n \<noteq> (t + k) mod length bs"
    proof (intro allI impI)
      fix k assume "k < length xs"
      then have "(h + idx) mod n \<noteq> (h + (c + k)) mod n"
        using True fit by (intro mod_add_distinct) simp_all
      then show "(h + idx) mod n \<noteq> (t + k) mod length bs"
        by (simp add: t n mod_add_left_eq add.assoc)
    qed
    then have "ring_write bs t xs ! ((h + idx) mod n) = bs ! ((h + idx) mod n)"
      using tn by (intro ring_write_other) simp_all
    then show ?thesis
      using True idx by (simp add: nth_append)
  next
    case False
    define k where "k = idx - c"
    have k: "k < length xs" "idx = c + k"
      using False idx by (simp_all add: k_def)
    have "(h + idx) mod n = (t + k) mod length bs"
      by (simp add: k t n mod_add_left_eq add.assoc)
    moreover have "ring_write bs t xs ! ((t + k) mod length bs) = xs ! k"
      using tn fit k n by (intro ring_write_nth) simp_all
    ultimately show ?thesis
      using False idx k by (simp add: nth_append)
  qed
qed

lemma ring_slice_Suc_shift:
  "ring_slice bs n h (Suc m) = bs ! (h mod n) # ring_slice bs n (Suc h mod n) m"
proof (rule nth_equalityI)
  show "length (ring_slice bs n h (Suc m)) = length (bs ! (h mod n) # ring_slice bs n (Suc h mod n) m)"
    by simp
next
  fix i assume "i < length (ring_slice bs n h (Suc m))"
  then have "i < Suc m" by simp
  then show "ring_slice bs n h (Suc m) ! i = (bs ! (h mod n) # ring_slice bs n (Suc h mod n) m) ! i"
    by (cases i) (simp_all add: mod_add_left_eq)
qed

lemma ring_slice_take: "m \<le> c \<Longrightarrow> take m (ring_slice bs n h c) = ring_slice bs n h m"
  by (simp add: ring_slice_def take_map)

lemma ring_slice_drop:
  "m \<le> c \<Longrightarrow> drop m (ring_slice bs n h c) = ring_slice bs n ((h + m) mod n) (c - m)"
  by (rule nth_equalityI) (simp_all add: mod_add_left_eq add.assoc)



section \<open>The loops on words\<close>

lemma unat_inc_less: "i < len \<Longrightarrow> unat (i + 1) = Suc (unat i)" for i len :: "'a::len word"
  by unat_arith

lemma unat_inc_mod:
  "t < n \<Longrightarrow> unat ((t + 1) mod n) = Suc (unat t) mod unat n" for t n :: "'a::len word"
  by (simp add: unat_mod unat_inc_less)

lemma inc_mod_less: "t < n \<Longrightarrow> (t + 1) mod n < n" for t n :: "'a::len word"
  by (metis word_mod_less_divisor word_gt_0 not_less word_le_0_iff le_less_trans word_zero_le)

lemma push_loop_run:
  assumes "buf rb = Some bs" and "length bs = unat (size_rb rb)" and "tail rb < size_rb rb"
    and "i \<le> len" and "unat len \<le> length kdata"
  shows "\<exists>tl'. push_loop kdata len i rb =
            Inr (rb\<lparr>buf := Some (ring_write bs (unat (tail rb))
                                   (drop (unat i) (take (unat len) kdata))),
                    tail := tl'\<rparr>) \<and>
            tl' < size_rb rb \<and>
            unat tl' = (unat (tail rb) + (unat len - unat i)) mod unat (size_rb rb)"
  using assms
proof (induction kdata len i rb arbitrary: bs rule: push_loop.induct)
  case (1 kdata len i rb)
  let ?n = "unat (size_rb rb)"
  let ?t = "unat (tail rb)"
  have tn: "?t < ?n"
    using "1.prems"(3) by (simp add: word_less_nat_alt)
  show ?case
  proof (cases "i < len")
    case False
    with "1.prems"(4) have eq: "i = len" by simp
    have "push_loop kdata len i rb = Inr rb"
      using False by (simp add: push_loop.simps [of kdata len i rb])
    moreover have "rb\<lparr>buf := Some (ring_write bs ?t (drop (unat i) (take (unat len) kdata))),
                      tail := tail rb\<rparr> = rb"
      using eq "1.prems"(1) by (cases rb) simp
    ultimately show ?thesis
      using "1.prems"(3) tn eq by (intro exI [of _ "tail rb"]) simp
  next
    case True
    let ?x = "kdata ! unat i"
    let ?rb1 = "rb\<lparr>buf := Some (bs[?t := ?x]), tail := (tail rb + 1) mod size_rb rb\<rparr>"
    have il: "unat i < unat len"
      using True by (simp add: word_less_nat_alt)
    have si: "unat (i + 1) = Suc (unat i)"
      using True by (rule unat_inc_less)
    have c1: "\<not> length kdata \<le> unat i"
      using il "1.prems"(5) by simp
    have c2: "\<not> length bs \<le> ?t"
      using tn "1.prems"(2) by simp
    have c3: "size_rb rb \<noteq> 0"
      using "1.prems"(3) by auto
    have t1: "unat (tail ?rb1) = Suc ?t mod length bs"
      using "1.prems"(2,3) by (simp add: unat_inc_mod)
    have "\<exists>tl'. push_loop kdata len (i + 1) ?rb1 =
            Inr (?rb1\<lparr>buf := Some (ring_write (bs[?t := ?x]) (unat (tail ?rb1))
                                   (drop (unat (i + 1)) (take (unat len) kdata))),
                    tail := tl'\<rparr>) \<and>
            tl' < size_rb ?rb1 \<and>
            unat tl' = (unat (tail ?rb1) + (unat len - unat (i + 1))) mod unat (size_rb ?rb1)"
    proof (rule "1.IH" [OF True c1 "1.prems"(1) c2 c3])
      show "buf ?rb1 = Some (bs[?t := ?x])" by simp
      show "length (bs[?t := ?x]) = unat (size_rb ?rb1)"
        using "1.prems"(2) by simp
      show "tail ?rb1 < size_rb ?rb1"
        using "1.prems"(3) by (simp add: inc_mod_less)
      show "i + 1 \<le> len"
        using True by (rule inc_le)
      show "unat len \<le> length kdata"
        by (rule "1.prems"(5))
    qed
    then obtain tl' where
      run: "push_loop kdata len (i + 1) ?rb1 =
            Inr (?rb1\<lparr>buf := Some (ring_write (bs[?t := ?x]) (unat (tail ?rb1))
                                   (drop (unat (i + 1)) (take (unat len) kdata))),
                    tail := tl'\<rparr>)"
      and lt: "tl' < size_rb ?rb1"
      and un: "unat tl' = (unat (tail ?rb1) + (unat len - unat (i + 1))) mod unat (size_rb ?rb1)"
      by blast
    have step: "push_loop kdata len i rb = push_loop kdata len (i + 1) ?rb1"
      using True c1 c2 c3 "1.prems"(1) by (simp add: push_loop.simps [of kdata len i rb])
    have "drop (unat i) (take (unat len) kdata) =
            ?x # drop (Suc (unat i)) (take (unat len) kdata)"
      using il "1.prems"(5) by (simp add: Cons_nth_drop_Suc [symmetric])
    then have wr: "ring_write bs ?t (drop (unat i) (take (unat len) kdata)) =
            ring_write (bs[?t := ?x]) (unat (tail ?rb1))
              (drop (unat (i + 1)) (take (unat len) kdata))"
      using t1 si by simp
    have "(Suc ?t mod ?n + (unat len - Suc (unat i))) mod ?n = (?t + (unat len - unat i)) mod ?n"
    proof -
      have "(Suc ?t mod ?n + (unat len - Suc (unat i))) mod ?n =
              (Suc ?t + (unat len - Suc (unat i))) mod ?n"
        by (simp add: mod_add_left_eq)
      also have "Suc ?t + (unat len - Suc (unat i)) = ?t + (unat len - unat i)"
        using il by simp
      finally show ?thesis .
    qed
    then have un': "unat tl' = (?t + (unat len - unat i)) mod ?n"
      using un t1 si "1.prems"(2) by simp
    show ?thesis
      using step run wr lt un' by (intro exI [of _ tl']) simp
  qed
qed

lemma pop_loop_run:
  assumes "buf rb = Some bs" and "length bs = unat (size_rb rb)" and "head rb < size_rb rb"
    and "i \<le> tocopy" and "unat tocopy \<le> length out"
  shows "\<exists>hd'. pop_loop tocopy i out rb =
            Inr (take (unat i) out @
                   ring_slice bs (unat (size_rb rb)) (unat (head rb)) (unat tocopy - unat i) @
                   drop (unat tocopy) out,
                 rb\<lparr>head := hd'\<rparr>) \<and>
            hd' < size_rb rb \<and>
            unat hd' = (unat (head rb) + (unat tocopy - unat i)) mod unat (size_rb rb)"
  using assms
proof (induction tocopy i out rb rule: pop_loop.induct)
  case (1 tocopy i out rb)
  let ?n = "unat (size_rb rb)"
  let ?h = "unat (head rb)"
  have hn: "?h < ?n"
    using "1.prems"(3) by (simp add: word_less_nat_alt)
  show ?case
  proof (cases "i < tocopy")
    case False
    with "1.prems"(4) have eq: "i = tocopy" by simp
    have "pop_loop tocopy i out rb = Inr (out, rb)"
      using False by (simp add: pop_loop.simps [of tocopy i out rb])
    moreover have "rb\<lparr>head := head rb\<rparr> = rb"
      by simp
    ultimately show ?thesis
      using "1.prems"(3) hn eq by (intro exI [of _ "head rb"]) (simp add: ring_slice_def)
  next
    case True
    let ?v = "bs ! ?h"
    let ?out1 = "out[unat i := ?v]"
    let ?rb1 = "rb\<lparr>head := (head rb + 1) mod size_rb rb\<rparr>"
    let ?m = "unat tocopy - unat i"
    have il: "unat i < unat tocopy"
      using True by (simp add: word_less_nat_alt)
    have si: "unat (i + 1) = Suc (unat i)"
      using True by (rule unat_inc_less)
    have c1: "\<not> length bs \<le> ?h"
      using hn "1.prems"(2) by simp
    have c2: "\<not> length out \<le> unat i"
      using il "1.prems"(5) by simp
    have c3: "size_rb rb \<noteq> 0"
      using "1.prems"(3) by auto
    have h1: "unat (head ?rb1) = Suc ?h mod ?n"
      using "1.prems"(3) by (simp add: unat_inc_mod)
    have "\<exists>hd'. pop_loop tocopy (i + 1) ?out1 ?rb1 =
            Inr (take (unat (i + 1)) ?out1 @
                   ring_slice bs (unat (size_rb ?rb1)) (unat (head ?rb1))
                     (unat tocopy - unat (i + 1)) @
                   drop (unat tocopy) ?out1,
                 ?rb1\<lparr>head := hd'\<rparr>) \<and>
            hd' < size_rb ?rb1 \<and>
            unat hd' = (unat (head ?rb1) + (unat tocopy - unat (i + 1))) mod unat (size_rb ?rb1)"
    proof (rule "1.IH" [OF True "1.prems"(1) c1 c2 c3])
      show "buf ?rb1 = Some bs"
        using "1.prems"(1) by simp
      show "length bs = unat (size_rb ?rb1)"
        using "1.prems"(2) by simp
      show "head ?rb1 < size_rb ?rb1"
        using "1.prems"(3) by (simp add: inc_mod_less)
      show "i + 1 \<le> tocopy"
        using True by (rule inc_le)
      show "unat tocopy \<le> length ?out1"
        using "1.prems"(5) by simp
    qed
    then obtain hd' where
      run: "pop_loop tocopy (i + 1) ?out1 ?rb1 =
            Inr (take (unat (i + 1)) ?out1 @
                   ring_slice bs (unat (size_rb ?rb1)) (unat (head ?rb1))
                     (unat tocopy - unat (i + 1)) @
                   drop (unat tocopy) ?out1,
                 ?rb1\<lparr>head := hd'\<rparr>)"
      and lt: "hd' < size_rb ?rb1"
      and un: "unat hd' = (unat (head ?rb1) + (unat tocopy - unat (i + 1))) mod unat (size_rb ?rb1)"
      by blast
    have step: "pop_loop tocopy i out rb = pop_loop tocopy (i + 1) ?out1 ?rb1"
      using True c1 c2 c3 "1.prems"(1) by (simp add: pop_loop.simps [of tocopy i out rb])
    have tk: "take (unat (i + 1)) ?out1 = take (unat i) out @ [?v]"
      using c2 si by (simp add: take_Suc_conv_app_nth)
    have dr: "drop (unat tocopy) ?out1 = drop (unat tocopy) out"
      using il by simp
    have m: "?m = Suc (unat tocopy - unat (i + 1))"
      using il si by simp
    have "ring_slice bs ?n ?h ?m = ?v # ring_slice bs ?n (Suc ?h mod ?n) (unat tocopy - unat (i + 1))"
      using hn by (subst m, subst ring_slice_Suc_shift) simp
    then have out: "take (unat i) out @ ring_slice bs ?n ?h ?m @ drop (unat tocopy) out =
        take (unat (i + 1)) ?out1 @
          ring_slice bs (unat (size_rb ?rb1)) (unat (head ?rb1)) (unat tocopy - unat (i + 1)) @
          drop (unat tocopy) ?out1"
      using tk dr h1 by simp
    have "(Suc ?h mod ?n + (unat tocopy - unat (i + 1))) mod ?n = (?h + ?m) mod ?n"
    proof -
      have "(Suc ?h mod ?n + (unat tocopy - unat (i + 1))) mod ?n =
              (Suc ?h + (unat tocopy - unat (i + 1))) mod ?n"
        by (simp add: mod_add_left_eq)
      also have "Suc ?h + (unat tocopy - unat (i + 1)) = ?h + ?m"
        using m by simp
      finally show ?thesis .
    qed
    then have un': "unat hd' = (?h + ?m) mod ?n"
      using un h1 by simp
    show ?thesis
      using step run out lt un' by (intro exI [of _ hd']) simp
  qed
qed

lemma push_loop_no_div:
  "size_rb rb \<noteq> 0 \<Longrightarrow> push_loop kdata len i rb \<noteq> Inl DivByZero"
proof (induction kdata len i rb rule: push_loop.induct)
  case (1 kdata len i rb)
  show ?case
  proof (cases "i < len \<and> \<not> length kdata \<le> unat i \<and>
      (\<exists>bs. buf rb = Some bs \<and> \<not> length bs \<le> unat (tail rb))")
    case True
    then obtain bs where bs: "buf rb = Some bs" "\<not> length bs \<le> unat (tail rb)"
      by blast
    have "push_loop kdata len (i + 1)
            (rb\<lparr>buf := Some (bs[unat (tail rb) := kdata ! unat i]),
                tail := (tail rb + 1) mod size_rb rb\<rparr>) \<noteq> Inl DivByZero"
      using True bs "1.prems" by (intro "1.IH") simp_all
    then show ?thesis
      using True bs "1.prems" by (simp add: push_loop.simps [of kdata len i rb])
  next
    case False
    then show ?thesis
      by (auto simp: push_loop.simps [of kdata len i rb] split: option.splits)
  qed
qed

lemma pop_loop_no_div:
  "size_rb rb \<noteq> 0 \<Longrightarrow> pop_loop tocopy i out rb \<noteq> Inl DivByZero"
proof (induction tocopy i out rb rule: pop_loop.induct)
  case (1 tocopy i out rb)
  show ?case
  proof (cases "i < tocopy \<and> \<not> length out \<le> unat i \<and>
      (\<exists>bs. buf rb = Some bs \<and> \<not> length bs \<le> unat (head rb))")
    case True
    then obtain bs where bs: "buf rb = Some bs" "\<not> length bs \<le> unat (head rb)"
      by blast
    have "pop_loop tocopy (i + 1) (out[unat i := bs ! unat (head rb)])
            (rb\<lparr>head := (head rb + 1) mod size_rb rb\<rparr>) \<noteq> Inl DivByZero"
      using True bs "1.prems" by (intro "1.IH") simp_all
    then show ?thesis
      using True bs "1.prems" by (simp add: pop_loop.simps [of tocopy i out rb])
  next
    case False
    then show ?thesis
      by (auto simp: pop_loop.simps [of tocopy i out rb] split: option.splits)
  qed
qed

section \<open>The invariant and the two locked operations\<close>

lemma rb_inv_SomeD:
  assumes "rb_inv rb" and "buf rb = Some bs"
  shows "0 < size_rb rb" and "unat (size_rb rb) < 2 ^ 31" and "length bs = unat (size_rb rb)"
    and "head rb < size_rb rb" and "tail rb < size_rb rb" and "count rb \<le> size_rb rb"
    and "unat (tail rb) = (unat (head rb) + unat (count rb)) mod unat (size_rb rb)"
  using assms by (simp_all add: rb_inv_def)

lemma rb_inv_NoneD:
  assumes "rb_inv rb" and "buf rb = None"
  shows "size_rb rb = 0" and "head rb = 0" and "tail rb = 0" and "count rb = 0"
  using assms by (simp_all add: rb_inv_def)

lemma rb_inv_None_static: "rb_inv rb \<Longrightarrow> buf rb = None \<Longrightarrow> rb = rb_static"
  by (cases rb) (simp add: rb_inv_def rb_static_def)

lemma rb_inv_static: "rb_inv rb_static"
  by (simp add: rb_inv_def rb_static_def)

lemma rb_inv_size_0: "rb_inv rb \<Longrightarrow> size_rb rb = 0 \<Longrightarrow> rb = rb_static"
  by (cases "buf rb") (auto simp: rb_inv_None_static rb_inv_def)

lemma fits_unat:
  fixes sz cnt len :: size_t
  assumes "cnt \<le> sz" and "\<not> sz - cnt < len"
  shows "unat cnt + unat len \<le> unat sz" and "unat (cnt + len) = unat cnt + unat len"
    and "cnt + len \<le> sz"
  using assms by unat_arith+

lemma full_unat:
  fixes sz cnt len :: size_t
  assumes "cnt \<le> sz"
  shows "sz - cnt < len \<longleftrightarrow> unat sz - unat cnt < unat len"
  using assms by unat_arith

lemma push_locked_nospace:
  "size_rb rb - count rb < len \<Longrightarrow> ringbuf_push_locked kdata len rb = Inr (rb, - ENOSPC)"
  by (simp add: ringbuf_push_locked_def)

lemma push_locked_fits:
  assumes inv: "rb_inv rb" and bs: "buf rb = Some bs"
    and fit: "\<not> size_rb rb - count rb < len" and data: "unat len \<le> length kdata"
  shows "\<exists>tl'. ringbuf_push_locked kdata len rb =
            Inr (rb\<lparr>buf := Some (ring_write bs (unat (tail rb)) (take (unat len) kdata)),
                    tail := tl', count := count rb + len\<rparr>, len) \<and>
            tl' < size_rb rb \<and>
            unat tl' = (unat (tail rb) + unat len) mod unat (size_rb rb)"
proof -
  note f = rb_inv_SomeD [OF inv bs]
  from push_loop_run [OF bs f(3) f(5) _ data, of 0]
  obtain tl' where
    run: "push_loop kdata len 0 rb =
            Inr (rb\<lparr>buf := Some (ring_write bs (unat (tail rb)) (take (unat len) kdata)),
                    tail := tl'\<rparr>)"
    and lt: "tl' < size_rb rb"
    and un: "unat tl' = (unat (tail rb) + unat len) mod unat (size_rb rb)"
    by auto
  show ?thesis
    using fit run lt un by (intro exI [of _ tl']) (simp add: ringbuf_push_locked_def)
qed

lemma push_locked_nobuf:
  assumes inv: "rb_inv rb" and bs: "buf rb = None" and fit: "\<not> size_rb rb - count rb < len"
  shows "len = 0" and "ringbuf_push_locked kdata len rb = Inr (rb, 0)"
proof -
  note f = rb_inv_NoneD [OF inv bs]
  show len: "len = 0"
    using fit f by (simp add: word_gt_0)
  have "push_loop kdata 0 0 rb = Inr rb"
    by (simp add: push_loop.simps [of kdata 0 0 rb])
  then show "ringbuf_push_locked kdata len rb = Inr (rb, 0)"
    using len f by (simp add: ringbuf_push_locked_def)
qed

lemma pop_locked_buf:
  assumes inv: "rb_inv rb" and bs: "buf rb = Some bs" and room: "unat len \<le> length out"
  shows "\<exists>hd'. ringbuf_pop_locked out len rb =
            Inr (rb\<lparr>head := hd', count := count rb - min len (count rb)\<rparr>,
                 ring_slice bs (unat (size_rb rb)) (unat (head rb)) (unat (min len (count rb))) @
                   drop (unat (min len (count rb))) out,
                 min len (count rb)) \<and>
            hd' < size_rb rb \<and>
            unat hd' = (unat (head rb) + unat (min len (count rb))) mod unat (size_rb rb)"
proof -
  note f = rb_inv_SomeD [OF inv bs]
  let ?n = "min len (count rb)"
  have tc: "(if count rb < len then count rb else len) = ?n"
    by (auto simp: min_def)
  have "unat ?n \<le> unat len"
    by (simp add: word_le_nat_alt [symmetric])
  then have room': "unat ?n \<le> length out"
    using room by simp
  from pop_loop_run [OF bs f(3) f(4) _ room', of 0]
  obtain hd' where
    run: "pop_loop ?n 0 out rb =
            Inr (ring_slice bs (unat (size_rb rb)) (unat (head rb)) (unat ?n) @ drop (unat ?n) out,
                 rb\<lparr>head := hd'\<rparr>)"
    and lt: "hd' < size_rb rb"
    and un: "unat hd' = (unat (head rb) + unat ?n) mod unat (size_rb rb)"
    by auto
  show ?thesis
    unfolding ringbuf_pop_locked_def tc using run lt un
    by (intro exI [of _ hd']) (simp add: Let_def)
qed

lemma pop_locked_empty:
  assumes "count rb = 0"
  shows "ringbuf_pop_locked out len rb = Inr (rb, out, 0)"
proof -
  have tc: "(if count rb < len then count rb else len) = 0"
    using assms by (simp add: word_gt_0)
  have "pop_loop 0 0 out rb = Inr (out, rb)"
    by (simp add: pop_loop.simps [of 0 0 out rb])
  then show ?thesis
    unfolding ringbuf_pop_locked_def tc using assms by simp
qed

lemma rb_inv_push:
  assumes inv: "rb_inv rb" and bs: "buf rb = Some bs"
    and fit: "\<not> size_rb rb - count rb < len"
    and len': "length bs' = length bs"
    and lt: "tl' < size_rb rb"
    and un: "unat tl' = (unat (tail rb) + unat len) mod unat (size_rb rb)"
  shows "rb_inv (rb\<lparr>buf := Some bs', tail := tl', count := count rb + len\<rparr>)"
proof -
  note f = rb_inv_SomeD [OF inv bs]
  note g = fits_unat [OF f(6) fit]
  have "unat tl' = (unat (head rb) + unat (count rb + len)) mod unat (size_rb rb)"
    using un f(7) g(2) by (simp add: mod_add_left_eq add.assoc)
  then show ?thesis
    using f g(3) len' lt by (simp add: rb_inv_def)
qed

lemma stored_push:
  assumes inv: "rb_inv rb" and bs: "buf rb = Some bs"
    and fit: "\<not> size_rb rb - count rb < len"
    and xs: "length xs = unat len"
  shows "stored (rb\<lparr>buf := Some (ring_write bs (unat (tail rb)) xs), tail := tl',
                    count := count rb + len\<rparr>) = stored rb @ xs"
proof -
  note f = rb_inv_SomeD [OF inv bs]
  note g = fits_unat [OF f(6) fit]
  have "0 < unat (size_rb rb)"
    using f(1) by (simp add: word_less_nat_alt)
  then have "ring_slice (ring_write bs (unat (tail rb)) xs) (unat (size_rb rb)) (unat (head rb))
          (unat (count rb) + length xs) =
        ring_slice bs (unat (size_rb rb)) (unat (head rb)) (unat (count rb)) @ xs"
    using f(3) f(7) g(1) xs by (intro ring_slice_ring_write) simp_all
  then show ?thesis
    using bs g(2) xs by (simp add: stored_def)
qed

lemma min_unat:
  fixes len cnt :: size_t
  shows "unat (min len cnt) = min (unat len) (unat cnt)"
    and "unat (cnt - min len cnt) = unat cnt - min (unat len) (unat cnt)"
    and "cnt - min len cnt \<le> cnt"
  by (unat_arith; simp add: min_def)+

lemma rb_inv_pop:
  assumes inv: "rb_inv rb" and bs: "buf rb = Some bs"
    and lt: "hd' < size_rb rb"
    and un: "unat hd' = (unat (head rb) + unat (min len (count rb))) mod unat (size_rb rb)"
  shows "rb_inv (rb\<lparr>head := hd', count := count rb - min len (count rb)\<rparr>)"
proof -
  note f = rb_inv_SomeD [OF inv bs]
  note m = min_unat [where len = len and cnt = "count rb"]
  let ?m = "min (unat len) (unat (count rb))"
  have "(unat hd' + (unat (count rb) - ?m)) mod unat (size_rb rb) =
          ((unat (head rb) + ?m) mod unat (size_rb rb) + (unat (count rb) - ?m))
            mod unat (size_rb rb)"
    by (simp only: un m(1))
  also have "\<dots> = (unat (head rb) + ?m + (unat (count rb) - ?m)) mod unat (size_rb rb)"
    by (rule mod_add_left_eq)
  also have "unat (head rb) + ?m + (unat (count rb) - ?m) = unat (head rb) + unat (count rb)"
    by simp
  finally have "(unat hd' + (unat (count rb) - ?m)) mod unat (size_rb rb) = unat (tail rb)"
    by (simp only: f(7))
  then have "unat (tail rb) =
      (unat hd' + unat (count rb - min len (count rb))) mod unat (size_rb rb)"
    by (simp only: m(2))
  moreover have "count rb - min len (count rb) \<le> size_rb rb"
    using m(3) f(6) by (rule order_trans)
  ultimately show ?thesis
    using f bs lt by (simp add: rb_inv_def)
qed

lemma stored_pop:
  assumes inv: "rb_inv rb" and bs: "buf rb = Some bs"
    and un: "unat hd' = (unat (head rb) + unat (min len (count rb))) mod unat (size_rb rb)"
  shows "ring_slice bs (unat (size_rb rb)) (unat (head rb)) (unat (min len (count rb))) =
           take (unat (min len (count rb))) (stored rb)"
    and "stored (rb\<lparr>head := hd', count := count rb - min len (count rb)\<rparr>) =
           drop (unat (min len (count rb))) (stored rb)"
proof -
  note m = min_unat [where len = len and cnt = "count rb"]
  have le: "unat (min len (count rb)) \<le> unat (count rb)"
    using m(1) by simp
  show "ring_slice bs (unat (size_rb rb)) (unat (head rb)) (unat (min len (count rb))) =
           take (unat (min len (count rb))) (stored rb)"
    using bs le by (simp add: stored_def ring_slice_take)
  show "stored (rb\<lparr>head := hd', count := count rb - min len (count rb)\<rparr>) =
           drop (unat (min len (count rb))) (stored rb)"
    using bs le un m by (simp add: stored_def ring_slice_drop)
qed

lemma push_locked_total:
  assumes inv: "rb_inv rb" and data: "unat len \<le> length kdata"
  shows "\<exists>rb' ret. ringbuf_push_locked kdata len rb = Inr (rb', ret) \<and> rb_inv rb'"
proof (cases "size_rb rb - count rb < len")
  case True
  then show ?thesis
    using inv by (simp add: push_locked_nospace)
next
  case False
  show ?thesis
  proof (cases "buf rb")
    case None
    then show ?thesis
      using push_locked_nobuf(2) [OF inv None False] inv by simp
  next
    case (Some bs)
    from push_locked_fits [OF inv Some False data] obtain tl' where
      run: "ringbuf_push_locked kdata len rb =
            Inr (rb\<lparr>buf := Some (ring_write bs (unat (tail rb)) (take (unat len) kdata)),
                    tail := tl', count := count rb + len\<rparr>, len)"
      and lt: "tl' < size_rb rb"
      and un: "unat tl' = (unat (tail rb) + unat len) mod unat (size_rb rb)"
      by blast
    have "rb_inv (rb\<lparr>buf := Some (ring_write bs (unat (tail rb)) (take (unat len) kdata)),
                    tail := tl', count := count rb + len\<rparr>)"
      using inv Some False _ lt un by (rule rb_inv_push) simp
    then show ?thesis
      using run by simp
  qed
qed

lemma pop_locked_total:
  assumes inv: "rb_inv rb" and room: "unat len \<le> length out"
  shows "\<exists>rb' out' ret. ringbuf_pop_locked out len rb = Inr (rb', out', ret) \<and> rb_inv rb' \<and>
           length out' = length out \<and> ret = min len (count rb)"
proof (cases "buf rb")
  case None
  then have "count rb = 0"
    using inv by (simp add: rb_inv_NoneD)
  then show ?thesis
    using inv by (simp add: pop_locked_empty)
next
  case (Some bs)
  from pop_locked_buf [OF inv Some room] obtain hd' where
    run: "ringbuf_pop_locked out len rb =
            Inr (rb\<lparr>head := hd', count := count rb - min len (count rb)\<rparr>,
                 ring_slice bs (unat (size_rb rb)) (unat (head rb)) (unat (min len (count rb))) @
                   drop (unat (min len (count rb))) out,
                 min len (count rb))"
    and lt: "hd' < size_rb rb"
    and un: "unat hd' = (unat (head rb) + unat (min len (count rb))) mod unat (size_rb rb)"
    by blast
  have "unat (min len (count rb)) \<le> length out"
    using room min_unat(1) [where len = len and cnt = "count rb"] by simp
  then have "length (ring_slice bs (unat (size_rb rb)) (unat (head rb)) (unat (min len (count rb))) @
                   drop (unat (min len (count rb))) out) = length out"
    by simp
  moreover have "rb_inv (rb\<lparr>head := hd', count := count rb - min len (count rb)\<rparr>)"
    using inv Some lt un by (rule rb_inv_pop)
  ultimately show ?thesis
    using run by simp
qed

section \<open>Closed forms of the two locked operations\<close>

lemma word_of_unat: "unat w = x \<Longrightarrow> w = of_nat x" for w :: "'a::len word"
  by auto

lemma push_locked_eq:
  assumes inv: "rb_inv rb" and data: "unat len \<le> length kdata"
  shows "ringbuf_push_locked kdata len rb =
     (if unat (size_rb rb) - unat (count rb) < unat len then Inr (rb, - ENOSPC)
      else Inr (rb\<lparr>buf := map_option (\<lambda>bs. ring_write bs (unat (tail rb)) (take (unat len) kdata))
                             (buf rb),
                   tail := of_nat ((unat (tail rb) + unat len) mod unat (size_rb rb)),
                   count := count rb + len\<rparr>, len))"
proof (cases "size_rb rb - count rb < len")
  case True
  moreover have "count rb \<le> size_rb rb"
    using inv by (cases "buf rb") (simp_all add: rb_inv_def)
  ultimately show ?thesis
    by (simp add: push_locked_nospace full_unat)
next
  case False
  have le: "count rb \<le> size_rb rb"
    using inv by (cases "buf rb") (simp_all add: rb_inv_def)
  have nf: "\<not> unat (size_rb rb) - unat (count rb) < unat len"
    using False le by (simp add: full_unat)
  show ?thesis
  proof (cases "buf rb")
    case None
    note z = rb_inv_NoneD [OF inv None] push_locked_nobuf [OF inv None False]
    have "rb\<lparr>buf := None, tail := 0, count := 0\<rparr> = rb"
      using None z by (cases rb) simp
    then show ?thesis
      using nf None z by simp
  next
    case (Some bs)
    from push_locked_fits [OF inv Some False data] obtain tl' where
      run: "ringbuf_push_locked kdata len rb =
            Inr (rb\<lparr>buf := Some (ring_write bs (unat (tail rb)) (take (unat len) kdata)),
                    tail := tl', count := count rb + len\<rparr>, len)"
      and un: "unat tl' = (unat (tail rb) + unat len) mod unat (size_rb rb)"
      by blast
    from un have "tl' = of_nat ((unat (tail rb) + unat len) mod unat (size_rb rb))"
      by (rule word_of_unat)
    then show ?thesis
      using nf Some run by simp
  qed
qed

lemma pop_locked_eq:
  assumes inv: "rb_inv rb" and room: "unat len \<le> length out"
  shows "ringbuf_pop_locked out len rb =
     Inr (rb\<lparr>head := of_nat ((unat (head rb) + unat (min len (count rb))) mod unat (size_rb rb)),
             count := count rb - min len (count rb)\<rparr>,
          take (unat (min len (count rb))) (stored rb) @ drop (unat (min len (count rb))) out,
          min len (count rb))"
proof (cases "buf rb")
  case None
  note z = rb_inv_NoneD [OF inv None]
  have "rb\<lparr>head := 0, count := 0\<rparr> = rb"
    using z by (cases rb) simp
  then show ?thesis
    using None z by (simp add: pop_locked_empty stored_def)
next
  case (Some bs)
  from pop_locked_buf [OF inv Some room] obtain hd' where
    run: "ringbuf_pop_locked out len rb =
            Inr (rb\<lparr>head := hd', count := count rb - min len (count rb)\<rparr>,
                 ring_slice bs (unat (size_rb rb)) (unat (head rb)) (unat (min len (count rb))) @
                   drop (unat (min len (count rb))) out,
                 min len (count rb))"
    and un: "unat hd' = (unat (head rb) + unat (min len (count rb))) mod unat (size_rb rb)"
    by blast
  from un have "hd' = of_nat ((unat (head rb) + unat (min len (count rb))) mod unat (size_rb rb))"
    by (rule word_of_unat)
  then show ?thesis
    using run stored_pop(1) [OF inv Some un] by simp
qed

section \<open>Facts for the ioctl handler\<close>

lemma sint_int_bound: "sint (ks :: c_int) < 2 ^ 31"
proof -
  have "sint ks < 2 ^ (LENGTH(32) - 1)"
    by (rule sint_lt)
  moreover have "LENGTH(32) - 1 = (31::nat)"
    by simp
  ultimately show ?thesis
    by (simp only:)
qed

lemma take_bit_small: "0 < (x::int) \<Longrightarrow> x < 2 ^ 31 \<Longrightarrow> take_bit 64 x = x"
proof -
  assume a: "0 < x" "x < 2 ^ 31"
  have "(2::int) ^ 31 < 2 ^ 64"
    by (rule power_strict_increasing) simp_all
  with a(2) have "x < 2 ^ 64"
    by (rule less_trans)
  with a(1) show ?thesis
    by (intro take_bit_int_eq_self) simp_all
qed

lemma scast_pos:
  assumes "0 < sint (ks :: c_int)"
  shows "unat (scast ks :: size_t) = nat (sint ks)" and "unat (scast ks :: size_t) < 2 ^ 31"
    and "(scast ks :: size_t) \<noteq> 0"
proof -
  have lt: "sint ks < 2 ^ 31"
    by (rule sint_int_bound)
  have "unat (scast ks :: size_t) = nat (uint (word_of_int (sint ks) :: size_t))"
    by (simp only: scast_eq unat_eq_nat_uint)
  also have "uint (word_of_int (sint ks) :: size_t) = take_bit LENGTH(64) (sint ks)"
    by (rule uint_word_of_int_eq)
  also have "LENGTH(64) = (64::nat)"
    by simp
  also have "take_bit 64 (sint ks) = sint ks"
    using assms lt by (rule take_bit_small)
  finally show u: "unat (scast ks :: size_t) = nat (sint ks)" .
  have "nat (sint ks) < nat (2 ^ 31)"
    using assms lt by (simp only: nat_less_eq_zless [OF less_imp_le])
  then show "unat (scast ks :: size_t) < 2 ^ 31"
    using u by (simp only: nat_power_eq nat_numeral zero_le_numeral)
  from u assms have "0 < unat (scast ks :: size_t)"
    by (simp only: zero_less_nat_eq)
  then show "(scast ks :: size_t) \<noteq> 0"
    by (rule unat_gt_0 [THEN iffD1])
qed

lemma kmalloc_length: "kmalloc h sz = Some kbuf \<Longrightarrow> length kbuf = unat sz"
  by (auto simp: kmalloc_def)

lemma copy_from_user_length:
  "copy_from_user kbuf region n = Some kbuf' \<Longrightarrow> length kbuf = unat n \<Longrightarrow> length kbuf' = unat n"
  by (auto simp: copy_from_user_def split: if_splits)

lemma errno_scast:
  "scast (- EINVAL :: c_int) = (- EINVAL :: c_long)"
  "scast (- ENOMEM :: c_int) = (- ENOMEM :: c_long)"
  "scast (0 :: c_int) = (0 :: c_long)"
  by (simp_all add: EINVAL_def ENOMEM_def)

lemma errno_negative:
  "sint (- EINVAL :: c_long) < 0" "sint (- ENOMEM :: c_long) < 0" "sint (- EFAULT :: c_long) < 0"
  "sint (- ENOSPC :: c_long) < 0" "sint (- ERESTARTSYS :: c_long) < 0"
  by (simp_all add: EINVAL_def ENOMEM_def EFAULT_def ENOSPC_def ERESTARTSYS_def)

lemma small_nonneg:
  assumes "unat (w :: size_t) < 2 ^ 31"
  shows "sint w = int (unat w)"
proof -
  have "int (unat w) < 2 ^ 31"
    using assms by (metis of_nat_less_iff of_nat_numeral of_nat_power)
  moreover have "(2::int) ^ 31 < 2 ^ 63"
    by (rule power_strict_increasing) simp_all
  ultimately have a: "int (unat w) < 2 ^ 63"
    by (rule less_trans)
  have b: "- (2 ^ 63) \<le> int (unat w)"
    by (rule order_trans [of _ 0]) simp_all
  have "sint w = signed_take_bit 63 (uint w)"
    by (simp add: sint_uint)
  also have "uint w = int (unat w)"
    by (rule uint_nat)
  also have "signed_take_bit 63 (int (unat w)) = int (unat w)"
    using a b by (intro signed_take_bit_int_eq_self) simp_all
  finally show ?thesis .
qed

lemma ioctl_set_size_ok:
  assumes "arg_int env = Some ks" and "0 < sint ks" and "heap env = Some junk"
  shows "ioctl_set_size env rb =
           Return \<lparr>buf = Some (map junk [0..<nat (sint ks)]), size_rb = scast ks,
                   head = 0, tail = 0, count = 0\<rparr> 0 (user_region env) None"
  using assms scast_pos [OF assms(2)]
  by (simp add: ioctl_set_size_def ringbuf_init_def ringbuf_free_def kmalloc_def)

lemma ioctl_set_size_nomem:
  assumes "arg_int env = Some ks" and "0 < sint ks" and "heap env = None"
  shows "ioctl_set_size env rb = Return rb_static (- ENOMEM) (user_region env) None"
  using assms scast_pos [OF assms(2)]
  by (simp add: ioctl_set_size_def ringbuf_init_def ringbuf_free_def kmalloc_def rb_static_def
      errno_scast)

lemma ioctl_set_size_early:
  "arg_int env = None \<Longrightarrow>
     ioctl_set_size env rb = Return rb (- EFAULT) (user_region env) None"
  "arg_int env = Some ks \<Longrightarrow> sint ks \<le> 0 \<Longrightarrow>
     ioctl_set_size env rb = Return rb (- EINVAL) (user_region env) None"
  by (simp_all add: ioctl_set_size_def)

lemma rb_inv_fresh:
  assumes "0 < sint (ks :: c_int)"
  shows "rb_inv \<lparr>buf = Some (map junk [0..<nat (sint ks)]), size_rb = scast ks,
                  head = 0, tail = 0, count = 0\<rparr>"
  using scast_pos [OF assms] by (simp add: rb_inv_def word_gt_0)

lemma ioctl_set_size_inv:
  assumes "rb_inv rb" and "ioctl_set_size env rb = Return rb' ret region len"
  shows "rb_inv rb'"
proof (cases "arg_int env")
  case None
  then show ?thesis
    using assms by (simp add: ioctl_set_size_early)
next
  case (Some ks)
  show ?thesis
  proof (cases "0 < sint ks")
    case False
    then show ?thesis
      using assms Some by (simp add: ioctl_set_size_early)
  next
    case True
    show ?thesis
    proof (cases "heap env")
      case None
      then show ?thesis
        using assms(2) ioctl_set_size_nomem [OF Some True None, of rb] by (simp add: rb_inv_static)
    next
      case (Some junk)
      then show ?thesis
        using assms(2) ioctl_set_size_ok [OF \<open>arg_int env = Some ks\<close> True Some, of rb]
          rb_inv_fresh [OF True, of junk]
        by simp
    qed
  qed
qed

lemma ioctl_push_data_inv:
  assumes "rb_inv rb"
  shows "\<exists>rb' ret. ioctl_push_data env rb = Return rb' ret (user_region env) None \<and> rb_inv rb'"
proof (cases "arg_qd env")
  case None
  then show ?thesis
    using assms by (simp add: ioctl_push_data_def)
next
  case (Some ud)
  let ?len = "scast (length_qd ud) :: size_t"
  show ?thesis
  proof (cases "sint (length_qd ud) \<le> 0")
    case True
    then show ?thesis
      using assms Some by (simp add: ioctl_push_data_def)
  next
    case False
    show ?thesis
    proof (cases "kmalloc (heap env) ?len")
      case None
      then show ?thesis
        using assms Some False by (simp add: ioctl_push_data_def)
    next
      case kb: (Some kbuf)
      show ?thesis
      proof (cases "copy_from_user kbuf (user_region env) ?len")
        case None
        then show ?thesis
          using assms Some False kb by (simp add: ioctl_push_data_def)
      next
        case cp: (Some kbuf')
        have "length kbuf' = unat ?len"
          using cp kmalloc_length [OF kb] by (rule copy_from_user_length)
        then have "unat ?len \<le> length kbuf'"
          by simp
        from push_locked_total [OF assms this] obtain rb' ret where
          "ringbuf_push_locked kbuf' ?len rb = Inr (rb', ret)" and "rb_inv rb'"
          by blast
        then show ?thesis
          using Some False kb cp by (simp add: ioctl_push_data_def)
      qed
    qed
  qed
qed

lemma ioctl_pop_data_inv:
  assumes "rb_inv rb"
  shows "ioctl_pop_data env rb = Blocked \<or>
         (\<exists>rb' ret region len. ioctl_pop_data env rb = Return rb' ret region len \<and> rb_inv rb')"
proof (cases "arg_qd env")
  case None
  then show ?thesis
    using assms by (simp add: ioctl_pop_data_def)
next
  case (Some ud)
  let ?len = "scast (length_qd ud) :: size_t"
  show ?thesis
  proof (cases "sint (length_qd ud) \<le> 0")
    case True
    then show ?thesis
      using assms Some by (simp add: ioctl_pop_data_def)
  next
    case False
    show ?thesis
    proof (cases "kmalloc (heap env) ?len")
      case None
      then show ?thesis
        using assms Some False by (simp add: ioctl_pop_data_def)
    next
      case kb: (Some kbuf)
      show ?thesis
      proof (cases "0 < count rb")
        case empty: False
        then show ?thesis
          using assms Some False kb by (simp add: ioctl_pop_data_def)
      next
        case True
        have "unat ?len \<le> length kbuf"
          using kmalloc_length [OF kb] by simp
        from pop_locked_total [OF assms this] obtain rb' out' ret where
          "ringbuf_pop_locked kbuf ?len rb = Inr (rb', out', ret)" and "rb_inv rb'"
          by blast
        then show ?thesis
          using Some False kb True
          by (simp add: ioctl_pop_data_def split: option.splits)
      qed
    qed
  qed
qed

lemma ringbuf_ioctl_inv:
  assumes "rb_inv rb"
  shows "ringbuf_ioctl cmd env rb = Blocked \<or>
         (\<exists>rb' ret region len. ringbuf_ioctl cmd env rb = Return rb' ret region len \<and> rb_inv rb')"
proof (cases cmd)
  case SET_SIZE_OF_QUEUE
  obtain rb' ret region len where "ioctl_set_size env rb = Return rb' ret region len"
    by (cases "ioctl_set_size env rb")
      (auto simp: ioctl_set_size_def split: option.splits if_splits prod.splits)
  then show ?thesis
    using SET_SIZE_OF_QUEUE ioctl_set_size_inv [OF assms] by (simp add: ringbuf_ioctl_def)
next
  case PUSH_DATA
  then show ?thesis
    using ioctl_push_data_inv [OF assms, of env] by (auto simp: ringbuf_ioctl_def)
next
  case POP_DATA
  then show ?thesis
    using ioctl_pop_data_inv [OF assms, of env] by (simp add: ringbuf_ioctl_def)
next
  case (OTHER_CMD c)
  then show ?thesis
    using assms by (simp add: ringbuf_ioctl_def)
qed

lemma ringbuf_ioctl_no_trap: "rb_inv rb \<Longrightarrow> ringbuf_ioctl cmd env rb \<noteq> Trap f"
  using ringbuf_ioctl_inv [of rb cmd env] by auto

lemma ringbuf_ioctl_Return_inv:
  "rb_inv rb \<Longrightarrow> ringbuf_ioctl cmd env rb = Return rb' ret region len \<Longrightarrow> rb_inv rb'"
  using ringbuf_ioctl_inv [of rb cmd env] by auto

lemma run_ioctls_inv:
  "rb_inv rb \<Longrightarrow> run_ioctls calls rb = Some rb' \<Longrightarrow> rb_inv rb'"
proof (induction calls arbitrary: rb)
  case Nil
  then show ?case by simp
next
  case (Cons c calls)
  obtain cmd env where c: "c = (cmd, env)"
    by (cases c)
  show ?case
  proof (cases "ringbuf_ioctl cmd env rb")
    case (Return rb1 ret region len)
    then have "rb_inv rb1"
      using Cons.prems(1) by (simp add: ringbuf_ioctl_Return_inv)
    moreover have "run_ioctls calls rb1 = Some rb'"
      using Cons.prems(2) c Return by simp
    ultimately show ?thesis
      by (rule Cons.IH)
  next
    case (Trap f)
    then show ?thesis
      using Cons.prems(2) c by simp
  next
    case Blocked
    then show ?thesis
      using Cons.prems(2) c by simp
  qed
qed

lemma rb_inv_bounds:
  assumes "rb_inv rb"
  shows "count rb \<le> size_rb rb" and "unat (size_rb rb) < 2 ^ 31"
  using assms by (cases "buf rb"; simp add: rb_inv_def)+

lemma success_not_enospc:
  assumes inv: "rb_inv rb" and fit: "\<not> size_rb rb - count rb < len"
  shows "len \<noteq> - ENOSPC"
proof
  assume eq: "len = - ENOSPC"
  note b = rb_inv_bounds [OF inv]
  have "unat len \<le> unat (size_rb rb)"
    using fits_unat(1) [OF b(1) fit] by simp
  then have "unat len < 2 ^ 31"
    using b(2) by (rule le_less_trans)
  then have "sint len = int (unat len)"
    by (rule small_nonneg)
  then have "0 \<le> sint len"
    by simp
  then show False
    using errno_negative(4) eq by simp
qed

lemma stored_empty: "count rb = 0 \<Longrightarrow> stored rb = []"
  by (simp add: stored_def ring_slice_def split: option.splits)

lemma wrap_scenario:
  "\<exists>rb1 rb2 rb3 rb4.
      ringbuf_push_locked [a, b, c] 3
        \<lparr>buf = Some [j0, j1, j2, j3], size_rb = 4, head = 0, tail = 0, count = 0\<rparr> =
        Inr (rb1, 3) \<and>
      ringbuf_pop_locked [o0, o1] 2 rb1 = Inr (rb2, [a, b], 2) \<and>
      ringbuf_push_locked [d, e, f] 3 rb2 = Inr (rb3, 3) \<and>
      tail rb3 = 2 \<and>
      ringbuf_pop_locked [p0, p1, p2, p3] 4 rb3 = Inr (rb4, [c, d, e, f], 4)"
  by (simp add: ringbuf_push_locked_def ringbuf_pop_locked_def push_loop.simps pop_loop.simps)

section \<open>Runs, traps and the state without storage\<close>

lemma run_calls_w:
  "run_ioctls calls_w rb_static =
     Some \<lparr>buf = Some [2, 3, 3, 1], size_rb = 4, head = 2, tail = 2, count = 4\<rparr>"
  by (simp add: calls_w_def env_w_def rb_static_def ringbuf_ioctl_def ioctl_set_size_def
      ioctl_push_data_def ioctl_pop_data_def ringbuf_init_def ringbuf_free_def kmalloc_def
      copy_from_user_def copy_to_user_def ringbuf_push_locked_def ringbuf_pop_locked_def
      push_loop.simps pop_loop.simps upt_rec)

lemma run_calls_w_prefix:
  "run_ioctls (take 2 calls_w) rb_static =
     Some \<lparr>buf = Some [1, 2, 3, 0], size_rb = 4, head = 0, tail = 3, count = 3\<rparr>"
  by (simp add: calls_w_def env_w_def rb_static_def ringbuf_ioctl_def ioctl_set_size_def
      ioctl_push_data_def ringbuf_init_def ringbuf_free_def kmalloc_def
      copy_from_user_def ringbuf_push_locked_def push_loop.simps upt_rec)

lemma push_locked_no_div:
  assumes "rb_inv rb"
  shows "ringbuf_push_locked kdata len rb \<noteq> Inl DivByZero"
proof (cases "size_rb rb = 0")
  case False
  then show ?thesis
    using push_loop_no_div [of rb kdata len 0]
    by (auto simp: ringbuf_push_locked_def split: sum.splits)
next
  case True
  then have "rb = rb_static"
    using assms by (simp add: rb_inv_size_0)
  then show ?thesis
    by (cases "len = 0")
      (simp_all add: ringbuf_push_locked_def rb_static_def word_gt_0 push_loop.simps [of _ 0 0])
qed

lemma pop_locked_no_div:
  assumes "rb_inv rb"
  shows "ringbuf_pop_locked out len rb \<noteq> Inl DivByZero"
proof (cases "size_rb rb = 0")
  case False
  then show ?thesis
    using pop_loop_no_div [of rb "if count rb < len then count rb else len" 0 out]
    by (auto simp: ringbuf_pop_locked_def Let_def split: sum.splits)
next
  case True
  then have "rb = rb_static"
    using assms by (simp add: rb_inv_size_0)
  then show ?thesis
    by (simp add: pop_locked_empty rb_static_def)
qed

lemma push_static:
  "len \<noteq> 0 \<Longrightarrow> ringbuf_push_locked kdata len rb_static = Inr (rb_static, - ENOSPC)"
  by (simp add: push_locked_nospace rb_static_def word_gt_0)

lemma push_full:
  "count rb = size_rb rb \<Longrightarrow> len \<noteq> 0 \<Longrightarrow>
     ringbuf_push_locked kdata len rb = Inr (rb, - ENOSPC)"
  by (simp add: push_locked_nospace word_gt_0)

lemma ioctl_static_stays:
  assumes "ringbuf_ioctl cmd env rb_static = Return rb' ret region len"
  shows "(rb' = rb_static \<and> sint ret < 0) \<or>
         (cmd = SET_SIZE_OF_QUEUE \<and> ret = 0 \<and> buf rb' \<noteq> None)"
proof (cases cmd)
  case SET_SIZE_OF_QUEUE
  show ?thesis
  proof (cases "arg_int env")
    case None
    then show ?thesis
      using assms SET_SIZE_OF_QUEUE
      by (auto simp: ringbuf_ioctl_def ioctl_set_size_early errno_negative)
  next
    case (Some ks)
    show ?thesis
    proof (cases "0 < sint ks")
      case False
      then show ?thesis
        using assms SET_SIZE_OF_QUEUE Some
        by (auto simp: ringbuf_ioctl_def ioctl_set_size_early errno_negative)
    next
      case True
      show ?thesis
      proof (cases "heap env")
        case None
        then show ?thesis
          using assms SET_SIZE_OF_QUEUE ioctl_set_size_nomem [OF Some True None, of rb_static]
          by (auto simp: ringbuf_ioctl_def errno_negative)
      next
        case (Some junk)
        then show ?thesis
          using assms SET_SIZE_OF_QUEUE
            ioctl_set_size_ok [OF \<open>arg_int env = Some ks\<close> True Some, of rb_static]
          by (auto simp: ringbuf_ioctl_def)
      qed
    qed
  qed
next
  case PUSH_DATA
  have r: "ioctl_push_data env rb_static = Return rb' ret region len"
    using assms PUSH_DATA by (simp add: ringbuf_ioctl_def)
  show ?thesis
  proof (cases "arg_qd env")
    case None
    then show ?thesis
      using r by (auto simp: ioctl_push_data_def errno_negative)
  next
    case (Some ud)
    show ?thesis
    proof (cases "0 < sint (length_qd ud)")
      case False
      then show ?thesis
        using r Some by (auto simp: ioctl_push_data_def errno_negative)
    next
      case True
      have "\<And>kdata. ringbuf_push_locked kdata (scast (length_qd ud)) rb_static =
              Inr (rb_static, - ENOSPC)"
        using scast_pos(3) [OF True] by (rule push_static)
      then show ?thesis
        using r Some True
        by (auto simp: ioctl_push_data_def errno_negative split: option.splits)
    qed
  qed
next
  case POP_DATA
  have "ioctl_pop_data env rb_static = Return rb' ret region len"
    using assms POP_DATA by (simp add: ringbuf_ioctl_def)
  then show ?thesis
    by (auto simp: ioctl_pop_data_def rb_static_def errno_negative
        split: option.splits if_splits)
next
  case (OTHER_CMD c)
  then show ?thesis
    using assms by (auto simp: ringbuf_ioctl_def errno_negative)
qed

lemma copy_from_user_fails:
  "copy_from_user kbuf region n = None \<longleftrightarrow> length region < unat n"
  by (simp add: copy_from_user_def not_le)

section \<open>The claims\<close>

text \<open>
  C1. From an empty buffer that satisfies the invariant, wherever its indices stand,
  pushing a sequence \<open>X\<close> no longer than the capacity and then popping \<open>length X\<close> bytes
  returns exactly \<open>X\<close>, in order, and leaves the buffer empty. The second part is the
  scenario with capacity 4: push 3 bytes, pop 2, push 3 more (the write index wraps to 2),
  pop 4; the bytes come out in the order they went in.
\<close>

theorem push_pop_round_trip:
  assumes inv: "rb_inv rb" and empty: "count rb = 0" and X: "length X = unat len"
    and cap: "len \<le> size_rb rb" and room: "unat len \<le> length out"
  shows "(\<exists>rb1 rb2.
            ringbuf_push_locked X len rb = Inr (rb1, len) \<and>
            ringbuf_pop_locked out len rb1 = Inr (rb2, X @ drop (unat len) out, len) \<and>
            count rb2 = 0) \<and>
         (\<exists>rb1 rb2 rb3 rb4.
            ringbuf_push_locked [a, b, c] 3
              \<lparr>buf = Some [j0, j1, j2, j3], size_rb = 4, head = 0, tail = 0, count = 0\<rparr> =
              Inr (rb1, 3) \<and>
            ringbuf_pop_locked [o0, o1] 2 rb1 = Inr (rb2, [a, b], 2) \<and>
            ringbuf_push_locked [d, e, f] 3 rb2 = Inr (rb3, 3) \<and>
            tail rb3 = 2 \<and>
            ringbuf_pop_locked [p0, p1, p2, p3] 4 rb3 = Inr (rb4, [c, d, e, f], 4))"
proof (rule conjI [OF _ wrap_scenario])
  have fit: "\<not> size_rb rb - count rb < len"
    using empty cap by (simp add: not_less)
  have data: "unat len \<le> length X"
    using X by simp
  show "\<exists>rb1 rb2.
            ringbuf_push_locked X len rb = Inr (rb1, len) \<and>
            ringbuf_pop_locked out len rb1 = Inr (rb2, X @ drop (unat len) out, len) \<and>
            count rb2 = 0"
  proof (cases "buf rb")
    case None
    note z = push_locked_nobuf(1) [OF inv None fit] push_locked_nobuf(2) [OF inv None fit, of X]
    have "X = []"
      using X z(1) by simp
    then show ?thesis
      using z empty by (intro exI [of _ rb]) (simp add: pop_locked_empty)
  next
    case (Some bs)
    from push_locked_fits [OF inv Some fit data] obtain tl' :: size_t where
      run: "ringbuf_push_locked X len rb =
            Inr (rb\<lparr>buf := Some (ring_write bs (unat (tail rb)) (take (unat len) X)),
                    tail := tl', count := count rb + len\<rparr>, len)"
      and lt: "tl' < size_rb rb"
      and un: "unat tl' = (unat (tail rb) + unat len) mod unat (size_rb rb)"
      by blast
    let ?rb1 = "rb\<lparr>buf := Some (ring_write bs (unat (tail rb)) (take (unat len) X)),
                    tail := tl', count := count rb + len\<rparr>"
    have inv1: "rb_inv ?rb1"
      using inv Some fit _ lt un by (rule rb_inv_push) simp
    have c1: "count ?rb1 = len"
      using empty by simp
    have "stored ?rb1 = stored rb @ take (unat len) X"
      using inv Some fit by (rule stored_push) (simp add: X)
    then have s1: "stored ?rb1 = X"
      using X empty by (simp add: stored_empty)
    have "ringbuf_pop_locked out len ?rb1 =
            Inr (?rb1\<lparr>head := of_nat ((unat (head ?rb1) + unat (min len (count ?rb1))) mod
                                  unat (size_rb ?rb1)),
                   count := count ?rb1 - min len (count ?rb1)\<rparr>,
                take (unat (min len (count ?rb1))) (stored ?rb1) @
                  drop (unat (min len (count ?rb1))) out,
                min len (count ?rb1))"
      using inv1 room by (rule pop_locked_eq)
    then have "ringbuf_pop_locked out len ?rb1 =
            Inr (?rb1\<lparr>head := of_nat ((unat (head rb) + unat len) mod unat (size_rb rb)),
                   count := 0\<rparr>, X @ drop (unat len) out, len)"
      unfolding s1 c1 using X by simp
    then show ?thesis
      using run
      by (intro exI [of _ ?rb1]
            exI [of _ "?rb1\<lparr>head := of_nat ((unat (head rb) + unat len) mod unat (size_rb rb)),
                            count := 0\<rparr>"])
        simp
  qed
qed

theorem push_pop_round_trip_witness:
  "\<exists>rb1 rb2.
      ringbuf_push_locked [1, 2, 3] 3
        \<lparr>buf = Some [9, 9, 9, 9], size_rb = 4, head = 3, tail = 3, count = 0\<rparr> =
        Inr (rb1, 3) \<and>
      ringbuf_pop_locked [0, 0, 0] 3 rb1 = Inr (rb2, [1, 2, 3], 3) \<and> count rb2 = 0"
  using push_pop_round_trip
    [of "\<lparr>buf = Some [9, 9, 9, 9], size_rb = 4, head = 3, tail = 3, count = 0\<rparr>"
      "[1, 2, 3]" 3 "[0, 0, 0]", THEN conjunct1]
  by (simp add: rb_inv_def)

text \<open>
  C2. In a state that satisfies the invariant, and with at least \<open>len\<close> bytes supplied,
  \<open>ringbuf_push_locked\<close> returns \<^verbatim>\<open>-ENOSPC\<close> exactly when \<open>len\<close> exceeds capacity minus
  count, and then leaves the whole state as it was. Otherwise it returns \<open>len\<close>, writes all
  \<open>len\<close> bytes from \<open>tail\<close> on wrapping modulo the capacity, leaves every other byte of the
  storage alone, advances \<open>tail\<close> by \<open>len\<close> modulo the capacity and adds exactly \<open>len\<close> to
  \<open>count\<close>. There is no third outcome, so nothing is ever written in part.
\<close>

theorem push_all_or_nothing:
  assumes inv: "rb_inv rb" and data: "unat len \<le> length kdata"
  shows "ringbuf_push_locked kdata len rb =
           (if unat (size_rb rb) - unat (count rb) < unat len then Inr (rb, - ENOSPC)
            else Inr (rb\<lparr>buf := map_option
                                  (\<lambda>bs. ring_write bs (unat (tail rb)) (take (unat len) kdata))
                                  (buf rb),
                         tail := of_nat ((unat (tail rb) + unat len) mod unat (size_rb rb)),
                         count := count rb + len\<rparr>, len)) \<and>
         ((\<exists>rb'. ringbuf_push_locked kdata len rb = Inr (rb', - ENOSPC)) \<longleftrightarrow>
            unat (size_rb rb) - unat (count rb) < unat len) \<and>
         (\<not> unat (size_rb rb) - unat (count rb) < unat len \<longrightarrow>
            unat (of_nat ((unat (tail rb) + unat len) mod unat (size_rb rb)) :: size_t) =
              (unat (tail rb) + unat len) mod unat (size_rb rb) \<and>
            unat (count rb + len) = unat (count rb) + unat len \<and>
            (\<forall>bs. buf rb = Some bs \<longrightarrow>
               length (ring_write bs (unat (tail rb)) (take (unat len) kdata)) = length bs \<and>
               (\<forall>k<unat len.
                  ring_write bs (unat (tail rb)) (take (unat len) kdata) !
                    ((unat (tail rb) + k) mod unat (size_rb rb)) = kdata ! k) \<and>
               (\<forall>j. (\<forall>k<unat len. j \<noteq> (unat (tail rb) + k) mod unat (size_rb rb)) \<longrightarrow>
                  ring_write bs (unat (tail rb)) (take (unat len) kdata) ! j = bs ! j)))"
    (is "?eq \<and> ?iff \<and> (\<not> ?full \<longrightarrow> ?tl \<and> ?cnt \<and> ?bytes)")
proof (intro conjI impI)
  note b = rb_inv_bounds [OF inv]
  show eq: ?eq
    using inv data by (rule push_locked_eq)
  show ?iff
  proof
    assume "\<exists>rb'. ringbuf_push_locked kdata len rb = Inr (rb', - ENOSPC)"
    then obtain rb' where r: "ringbuf_push_locked kdata len rb = Inr (rb', - ENOSPC)" ..
    show ?full
    proof (rule ccontr)
      assume nf: "\<not> ?full"
      then have "\<not> size_rb rb - count rb < len"
        using b(1) by (simp add: full_unat)
      then have "len \<noteq> - ENOSPC"
        using inv by (intro success_not_enospc)
      then show False
        using eq r nf by simp
    qed
  next
    assume ?full
    then show "\<exists>rb'. ringbuf_push_locked kdata len rb = Inr (rb', - ENOSPC)"
      using eq by simp
  qed
next
  note b = rb_inv_bounds [OF inv]
  assume nf: "\<not> ?full"
  then have fit: "\<not> size_rb rb - count rb < len"
    using b(1) by (simp add: full_unat)
  show ?cnt
    using b(1) fit by (rule fits_unat(2))
  show ?tl
  proof (cases "buf rb")
    case None
    then show ?thesis
      using rb_inv_NoneD [OF inv None] push_locked_nobuf(1) [OF inv None fit] by simp
  next
    case (Some bs)
    from push_locked_fits [OF inv Some fit data] obtain tl' :: size_t where
      un: "unat tl' = (unat (tail rb) + unat len) mod unat (size_rb rb)"
      by blast
    then have "tl' = of_nat ((unat (tail rb) + unat len) mod unat (size_rb rb))"
      by (rule word_of_unat)
    with un show ?thesis
      by simp
  qed
  show ?bytes
  proof (intro allI impI conjI)
    fix bs assume bs: "buf rb = Some bs"
    note f = rb_inv_SomeD [OF inv bs]
    have tn: "unat (tail rb) < length bs"
      using f(3,5) by (simp add: word_less_nat_alt)
    have lx: "length (take (unat len) kdata) = unat len"
      using data by simp
    have ll: "length (take (unat len) kdata) \<le> length bs"
      using lx fits_unat(1) [OF b(1) fit] f(3) by simp
    show "length (ring_write bs (unat (tail rb)) (take (unat len) kdata)) = length bs"
      by simp
    {
      fix k assume k: "k < unat len"
      then have "ring_write bs (unat (tail rb)) (take (unat len) kdata) !
              ((unat (tail rb) + k) mod length bs) = take (unat len) kdata ! k"
        using tn ll lx by (intro ring_write_nth) simp_all
      then show "ring_write bs (unat (tail rb)) (take (unat len) kdata) !
              ((unat (tail rb) + k) mod unat (size_rb rb)) = kdata ! k"
        using k f(3) by simp
    }
    {
      fix j assume "\<forall>k<unat len. j \<noteq> (unat (tail rb) + k) mod unat (size_rb rb)"
      then have "\<forall>k<length (take (unat len) kdata). j \<noteq> (unat (tail rb) + k) mod length bs"
        using lx f(3) by simp
      with tn show "ring_write bs (unat (tail rb)) (take (unat len) kdata) ! j = bs ! j"
        by (rule ring_write_other)
    }
  qed
qed

theorem push_all_or_nothing_witness:
  "ringbuf_push_locked [1, 2, 3] 3 rb_w =
     Inr (\<lparr>buf = Some [2, 3, 7, 1], size_rb = 4, head = 2, tail = 2, count = 4\<rparr>, 3) \<and>
   ringbuf_push_locked [1, 2, 3, 4] 4 rb_w = Inr (rb_w, - ENOSPC)"
  using push_all_or_nothing [of rb_w 3 "[1, 2, 3]", THEN conjunct1]
    push_all_or_nothing [of rb_w 4 "[1, 2, 3, 4]", THEN conjunct1]
  by (simp add: rb_w_def rb_inv_def)

text \<open>
  C3. In a state that satisfies the invariant, and with room for \<open>len\<close> bytes in \<open>out\<close>,
  \<open>ringbuf_pop_locked\<close> returns \<open>n = min len count\<close>, never more; the first \<open>n\<close> bytes of
  \<open>out\<close> become the \<open>n\<close> bytes of the storage from \<open>head\<close> on, wrapping modulo the capacity,
  \<open>head\<close> advances by \<open>n\<close> modulo the capacity and \<open>count\<close> drops by \<open>n\<close>. The function is
  total: with \<open>count = 0\<close> it returns 0 at once and changes nothing.
\<close>

theorem pop_min:
  assumes inv: "rb_inv rb" and room: "unat len \<le> length out"
  shows "ringbuf_pop_locked out len rb =
           Inr (rb\<lparr>head := of_nat ((unat (head rb) + unat (min len (count rb))) mod
                                  unat (size_rb rb)),
                   count := count rb - min len (count rb)\<rparr>,
                take (unat (min len (count rb))) (stored rb) @
                  drop (unat (min len (count rb))) out,
                min len (count rb)) \<and>
         unat (min len (count rb)) = min (unat len) (unat (count rb)) \<and>
         unat (of_nat ((unat (head rb) + unat (min len (count rb))) mod unat (size_rb rb))
                 :: size_t) =
           (unat (head rb) + unat (min len (count rb))) mod unat (size_rb rb) \<and>
         unat (count rb - min len (count rb)) = unat (count rb) - unat (min len (count rb)) \<and>
         (\<forall>bs k. buf rb = Some bs \<longrightarrow> k < unat (min len (count rb)) \<longrightarrow>
            (take (unat (min len (count rb))) (stored rb) @
               drop (unat (min len (count rb))) out) ! k =
            bs ! ((unat (head rb) + k) mod unat (size_rb rb))) \<and>
         (count rb = 0 \<longrightarrow> ringbuf_pop_locked out len rb = Inr (rb, out, 0))"
    (is "?eq \<and> ?min \<and> ?hd \<and> ?cnt \<and> ?bytes \<and> ?empty")
proof (intro conjI)
  note m = min_unat [where len = len and cnt = "count rb"]
  show ?eq
    using inv room by (rule pop_locked_eq)
  show ?min
    by (rule m(1))
  show ?cnt
    using m(1,2) by simp
  show ?hd
  proof (cases "buf rb")
    case None
    then show ?thesis
      using rb_inv_NoneD [OF inv None] by simp
  next
    case (Some bs)
    from pop_locked_buf [OF inv Some room] obtain hd' :: size_t where
      un: "unat hd' = (unat (head rb) + unat (min len (count rb))) mod unat (size_rb rb)"
      by blast
    then have "hd' = of_nat ((unat (head rb) + unat (min len (count rb))) mod unat (size_rb rb))"
      by (rule word_of_unat)
    with un show ?thesis
      by simp
  qed
  show ?bytes
  proof (intro allI impI)
    fix bs k
    assume bs: "buf rb = Some bs" and k: "k < unat (min len (count rb))"
    have le: "unat (min len (count rb)) \<le> unat (count rb)"
      using m(1) by simp
    have "length (take (unat (min len (count rb))) (stored rb)) = unat (min len (count rb))"
      using bs le by (simp add: stored_def)
    then have "(take (unat (min len (count rb))) (stored rb) @
               drop (unat (min len (count rb))) out) ! k =
            take (unat (min len (count rb))) (stored rb) ! k"
      using k by (simp add: nth_append)
    also have "\<dots> = stored rb ! k"
      using k by simp
    also have "\<dots> = bs ! ((unat (head rb) + k) mod unat (size_rb rb))"
      using bs k le by (simp add: stored_def)
    finally show "(take (unat (min len (count rb))) (stored rb) @
               drop (unat (min len (count rb))) out) ! k =
            bs ! ((unat (head rb) + k) mod unat (size_rb rb))" .
  qed
  show ?empty
    by (simp add: pop_locked_empty)
qed

theorem pop_min_witness:
  "ringbuf_pop_locked [0, 0, 0] 3
     \<lparr>buf = Some [2, 3, 7, 1], size_rb = 4, head = 3, tail = 1, count = 2\<rparr> =
     Inr (\<lparr>buf = Some [2, 3, 7, 1], size_rb = 4, head = 1, tail = 1, count = 0\<rparr>,
          [1, 2, 0], 2) \<and>
   ringbuf_pop_locked [5, 6] 2 rb_static = Inr (rb_static, [5, 6], 0)"
  using pop_min [of "\<lparr>buf = Some [2, 3, 7, 1], size_rb = 4, head = 3, tail = 1, count = 2\<rparr>"
      3 "[0, 0, 0]", THEN conjunct1]
    pop_min [of rb_static 2 "[5, 6]", THEN conjunct1]
  by (simp add: rb_inv_def rb_static_def stored_def ring_slice_def upt_rec)

text \<open>
  C4. The invariant holds in the state at module load and in every state reached from a
  state that satisfies it by any sequence of calls of the handler (resize, push, pop, in
  any order, with any arguments and any behaviour of the allocator and of the copies): there
  \<open>count \<le> capacity\<close>, and \<open>head < capacity\<close> and \<open>tail < capacity\<close> whenever storage
  exists. Every operation preserves it: each call of the handler either leaves the caller
  asleep or returns in a state that satisfies it, and so do the two locked operations and
  \<open>ringbuf_free\<close>.
\<close>

theorem capacity_invariant:
  assumes "rb_inv rb0" and "run_ioctls calls rb0 = Some rb"
  shows "rb_inv rb_static \<and> rb_inv rb \<and>
         unat (count rb) \<le> unat (size_rb rb) \<and>
         (buf rb \<noteq> None \<longrightarrow>
            unat (head rb) < unat (size_rb rb) \<and> unat (tail rb) < unat (size_rb rb)) \<and>
         (\<forall>cmd env.
            ringbuf_ioctl cmd env rb = Blocked \<or>
            (\<exists>rb' ret region len.
               ringbuf_ioctl cmd env rb = Return rb' ret region len \<and> rb_inv rb')) \<and>
         (\<forall>kdata len. unat len \<le> length kdata \<longrightarrow>
            (\<exists>rb' ret. ringbuf_push_locked kdata len rb = Inr (rb', ret) \<and> rb_inv rb')) \<and>
         (\<forall>out len. unat len \<le> length out \<longrightarrow>
            (\<exists>rb' out' ret. ringbuf_pop_locked out len rb = Inr (rb', out', ret) \<and> rb_inv rb')) \<and>
         rb_inv (ringbuf_free rb)"
proof -
  have inv: "rb_inv rb"
    using assms by (rule run_ioctls_inv)
  have cnt: "unat (count rb) \<le> unat (size_rb rb)"
    using rb_inv_bounds(1) [OF inv] by (simp add: word_le_nat_alt)
  have idx: "buf rb \<noteq> None \<longrightarrow>
      unat (head rb) < unat (size_rb rb) \<and> unat (tail rb) < unat (size_rb rb)"
  proof
    assume "buf rb \<noteq> None"
    then obtain bs where "buf rb = Some bs"
      by auto
    from rb_inv_SomeD(4,5) [OF inv this]
    show "unat (head rb) < unat (size_rb rb) \<and> unat (tail rb) < unat (size_rb rb)"
      by (simp add: word_less_nat_alt)
  qed
  have io: "\<forall>cmd env.
      ringbuf_ioctl cmd env rb = Blocked \<or>
      (\<exists>rb' ret region len. ringbuf_ioctl cmd env rb = Return rb' ret region len \<and> rb_inv rb')"
    using ringbuf_ioctl_inv [OF inv] by blast
  have pu: "\<forall>kdata len. unat len \<le> length kdata \<longrightarrow>
      (\<exists>rb' ret. ringbuf_push_locked kdata len rb = Inr (rb', ret) \<and> rb_inv rb')"
    using push_locked_total [OF inv] by blast
  have po: "\<forall>out len. unat len \<le> length out \<longrightarrow>
      (\<exists>rb' out' ret. ringbuf_pop_locked out len rb = Inr (rb', out', ret) \<and> rb_inv rb')"
    using pop_locked_total [OF inv] by blast
  have fr: "rb_inv (ringbuf_free rb)"
    by (simp add: ringbuf_free_def rb_inv_def)
  show ?thesis
    using rb_inv_static inv cnt idx io pu po fr by (intro conjI)
qed

theorem capacity_invariant_witness:
  "run_ioctls calls_w rb_static =
     Some \<lparr>buf = Some [2, 3, 3, 1], size_rb = 4, head = 2, tail = 2, count = 4\<rparr> \<and>
   rb_inv \<lparr>buf = Some [2, 3, 3, 1], size_rb = 4, head = 2, tail = 2, count = 4\<rparr>"
  using capacity_invariant [OF rb_inv_static run_calls_w] run_calls_w
  by simp

text \<open>
  C5. A resize with a capacity \<open>ks > 0\<close> does not look at the state it finds: when the
  allocation succeeds the new state has \<open>head = tail = count = 0\<close> and fresh storage of
  exactly \<open>ks\<close> bytes; when the allocation fails the call returns \<^verbatim>\<open>-ENOMEM\<close> and the state
  is the one without storage, the old buffer being gone. From the state without storage
  every call that returns either fails and leaves that state, or is a successful resize.
\<close>

theorem resize_discards:
  assumes "arg_int env = Some ks" and "0 < sint ks"
  shows "(\<forall>junk. heap env = Some junk \<longrightarrow>
            ringbuf_ioctl SET_SIZE_OF_QUEUE env rb =
              Return \<lparr>buf = Some (map junk [0..<nat (sint ks)]), size_rb = scast ks,
                      head = 0, tail = 0, count = 0\<rparr> 0 (user_region env) None) \<and>
         unat (scast ks :: size_t) = nat (sint ks) \<and>
         (heap env = None \<longrightarrow>
            ringbuf_ioctl SET_SIZE_OF_QUEUE env rb =
              Return rb_static (- ENOMEM) (user_region env) None) \<and>
         (\<forall>cmd env' rb' ret region len.
            ringbuf_ioctl cmd env' rb_static = Return rb' ret region len \<longrightarrow>
              (rb' = rb_static \<and> sint ret < 0) \<or>
              (cmd = SET_SIZE_OF_QUEUE \<and> ret = 0 \<and> buf rb' \<noteq> None))"
proof (intro conjI allI impI)
  fix junk assume "heap env = Some junk"
  with assms show "ringbuf_ioctl SET_SIZE_OF_QUEUE env rb =
              Return \<lparr>buf = Some (map junk [0..<nat (sint ks)]), size_rb = scast ks,
                      head = 0, tail = 0, count = 0\<rparr> 0 (user_region env) None"
    by (simp add: ringbuf_ioctl_def ioctl_set_size_ok)
next
  show "unat (scast ks :: size_t) = nat (sint ks)"
    using assms(2) by (rule scast_pos(1))
next
  assume "heap env = None"
  with assms show "ringbuf_ioctl SET_SIZE_OF_QUEUE env rb =
              Return rb_static (- ENOMEM) (user_region env) None"
    by (simp add: ringbuf_ioctl_def ioctl_set_size_nomem)
next
  fix cmd env' rb' ret region len
  assume "ringbuf_ioctl cmd env' rb_static = Return rb' ret region len"
  then show "(rb' = rb_static \<and> sint ret < 0) \<or>
              (cmd = SET_SIZE_OF_QUEUE \<and> ret = 0 \<and> buf rb' \<noteq> None)"
    by (rule ioctl_static_stays)
qed

theorem resize_discards_witness:
  "ringbuf_ioctl SET_SIZE_OF_QUEUE env_w rb_w =
     Return \<lparr>buf = Some [0, 0, 0, 0], size_rb = 4, head = 0, tail = 0, count = 0\<rparr> 0
       [1, 2, 3] None \<and>
   ringbuf_ioctl SET_SIZE_OF_QUEUE env_nomem rb_w = Return rb_static (- ENOMEM) [1, 2, 3] None"
  using resize_discards [of env_w 4 rb_w] resize_discards [of env_nomem 4 rb_w]
  by (simp add: env_w_def env_nomem_def upt_rec)

text \<open>
  C7, as claimed, fails: the value returned for an unknown command is the value
  returned for a size of 0, \<^verbatim>\<open>-EINVAL\<close>, so the caller cannot tell the two apart.
\<close>

theorem unknown_opcode_not_distinct:
  "ringbuf_ioctl (OTHER_CMD 0) env_zero rb_static = Return rb_static (- EINVAL) [] None \<and>
   ringbuf_ioctl SET_SIZE_OF_QUEUE env_zero rb_static = Return rb_static (- EINVAL) [] None"
  by (simp add: ringbuf_ioctl_def ioctl_set_size_def env_zero_def)

text \<open>
  C7, amended. A request with an unknown command returns \<^verbatim>\<open>-EINVAL\<close>, the code that
  also reports a non-positive length or capacity, and leaves the buffer and the caller's
  memory as they were.
\<close>

theorem unknown_opcode_is_einval:
  "ringbuf_ioctl (OTHER_CMD c) env rb = Return rb (- EINVAL) (user_region env) None"
  by (simp add: ringbuf_ioctl_def)

text \<open>
  C8. In \<^verbatim>\<open>PUSH_DATA\<close>, when the request structure cannot be read, or when fewer bytes
  than requested are readable at \<^verbatim>\<open>ud.data\<close> so that the copy into the scratch buffer fails,
  the call returns \<^verbatim>\<open>-EFAULT\<close> and the ring buffer is exactly the one before the call.
  \<^verbatim>\<open>PUSH_DATA\<close> and \<^verbatim>\<open>POP_DATA\<close> with a length \<open>\<le> 0\<close> return \<^verbatim>\<open>-EINVAL\<close>, again with
  the ring buffer untouched. This holds in every state, whether or not it satisfies the
  invariant.
\<close>

theorem push_fault_leaves_buffer:
  "(arg_qd env = None \<longrightarrow>
      ringbuf_ioctl PUSH_DATA env rb = Return rb (- EFAULT) (user_region env) None) \<and>
   (\<forall>ud kbuf.
      arg_qd env = Some ud \<and> 0 < sint (length_qd ud) \<and>
      kmalloc (heap env) (scast (length_qd ud)) = Some kbuf \<and>
      length (user_region env) < nat (sint (length_qd ud)) \<longrightarrow>
        copy_from_user kbuf (user_region env) (scast (length_qd ud)) = None \<and>
        ringbuf_ioctl PUSH_DATA env rb = Return rb (- EFAULT) (user_region env) None) \<and>
   (\<forall>ud.
      arg_qd env = Some ud \<and> sint (length_qd ud) \<le> 0 \<longrightarrow>
        ringbuf_ioctl PUSH_DATA env rb = Return rb (- EINVAL) (user_region env) None \<and>
        ringbuf_ioctl POP_DATA env rb = Return rb (- EINVAL) (user_region env) None)"
proof (intro conjI allI impI)
  assume "arg_qd env = None"
  then show "ringbuf_ioctl PUSH_DATA env rb = Return rb (- EFAULT) (user_region env) None"
    by (simp add: ringbuf_ioctl_def ioctl_push_data_def)
next
  fix ud :: queue_data and kbuf :: "byte list"
  assume a: "arg_qd env = Some ud \<and> 0 < sint (length_qd ud) \<and>
      kmalloc (heap env) (scast (length_qd ud)) = Some kbuf \<and>
      length (user_region env) < nat (sint (length_qd ud))"
  then have "length (user_region env) < unat (scast (length_qd ud) :: size_t)"
    using scast_pos(1) [of "length_qd ud"] by simp
  then show c: "copy_from_user kbuf (user_region env) (scast (length_qd ud)) = None"
    by (simp add: copy_from_user_fails)
  show "ringbuf_ioctl PUSH_DATA env rb = Return rb (- EFAULT) (user_region env) None"
    using a c by (simp add: ringbuf_ioctl_def ioctl_push_data_def)
next
  fix ud :: queue_data
  assume a: "arg_qd env = Some ud \<and> sint (length_qd ud) \<le> 0"
  then show "ringbuf_ioctl PUSH_DATA env rb = Return rb (- EINVAL) (user_region env) None"
    by (simp add: ringbuf_ioctl_def ioctl_push_data_def)
  from a show "ringbuf_ioctl POP_DATA env rb = Return rb (- EINVAL) (user_region env) None"
    by (simp add: ringbuf_ioctl_def ioctl_pop_data_def)
qed

theorem push_fault_leaves_buffer_witness:
  "ringbuf_ioctl PUSH_DATA env_short rb_w = Return rb_w (- EFAULT) [1, 2] None \<and>
   ringbuf_ioctl PUSH_DATA env_neg rb_w = Return rb_w (- EINVAL) [1, 2, 3] None \<and>
   ringbuf_ioctl POP_DATA env_neg rb_w = Return rb_w (- EINVAL) [1, 2, 3] None \<and>
   ringbuf_ioctl PUSH_DATA env_zero rb_w = Return rb_w (- EFAULT) [] None"
  using push_fault_leaves_buffer [of env_short rb_w] push_fault_leaves_buffer [of env_neg rb_w]
    push_fault_leaves_buffer [of env_zero rb_w]
  by (simp add: env_short_def env_neg_def env_zero_def env_w_def kmalloc_def)

text \<open>
  C9. In a state with capacity 0 and count 0, such as the state at module load and the
  state after a resize whose allocation failed, a push of any nonzero length returns
  \<^verbatim>\<open>-ENOSPC\<close> and changes nothing, and a pop returns 0 bytes and changes nothing. A full
  buffer answers a push with the same \<^verbatim>\<open>-ENOSPC\<close>; for every caller, \<^verbatim>\<open>PUSH_DATA\<close> returns
  the same value on a full buffer as on the state without storage.
\<close>

theorem no_buffer_looks_full:
  assumes "size_rb rb = 0" and "count rb = 0"
  shows "(len \<noteq> 0 \<longrightarrow> ringbuf_push_locked kdata len rb = Inr (rb, - ENOSPC)) \<and>
         ringbuf_pop_locked out len rb = Inr (rb, out, 0) \<and>
         (\<forall>rbf. count rbf = size_rb rbf \<and> len \<noteq> 0 \<longrightarrow>
            ringbuf_push_locked kdata len rbf = Inr (rbf, - ENOSPC)) \<and>
         buf rb_static = None \<and> size_rb rb_static = 0 \<and> count rb_static = 0 \<and>
         (\<forall>env ks rb0. arg_int env = Some ks \<and> 0 < sint ks \<and> heap env = None \<longrightarrow>
            ringbuf_ioctl SET_SIZE_OF_QUEUE env rb0 =
              Return rb_static (- ENOMEM) (user_region env) None) \<and>
         (\<forall>env rbf. rb_inv rbf \<and> count rbf = size_rb rbf \<longrightarrow>
            (\<exists>ret. ringbuf_ioctl PUSH_DATA env rbf = Return rbf ret (user_region env) None \<and>
                   ringbuf_ioctl PUSH_DATA env rb_static =
                     Return rb_static ret (user_region env) None))"
proof (intro conjI allI impI)
  assume "len \<noteq> 0"
  then show "ringbuf_push_locked kdata len rb = Inr (rb, - ENOSPC)"
    using assms by (simp add: push_full)
next
  show "ringbuf_pop_locked out len rb = Inr (rb, out, 0)"
    using assms(2) by (rule pop_locked_empty)
next
  fix rbf :: ringbuf assume "count rbf = size_rb rbf \<and> len \<noteq> 0"
  then show "ringbuf_push_locked kdata len rbf = Inr (rbf, - ENOSPC)"
    by (simp add: push_full)
next
  show "buf rb_static = None" "size_rb rb_static = 0" "count rb_static = 0"
    by (simp_all add: rb_static_def)
next
  fix env :: call_env and ks :: c_int and rb0 :: ringbuf
  assume "arg_int env = Some ks \<and> 0 < sint ks \<and> heap env = None"
  then show "ringbuf_ioctl SET_SIZE_OF_QUEUE env rb0 =
      Return rb_static (- ENOMEM) (user_region env) None"
    by (simp add: ringbuf_ioctl_def ioctl_set_size_nomem)
next
  fix env :: call_env and rbf :: ringbuf
  assume a: "rb_inv rbf \<and> count rbf = size_rb rbf"
  show "\<exists>ret. ringbuf_ioctl PUSH_DATA env rbf = Return rbf ret (user_region env) None \<and>
              ringbuf_ioctl PUSH_DATA env rb_static =
                Return rb_static ret (user_region env) None"
  proof (cases "arg_qd env")
    case None
    then show ?thesis
      by (simp add: ringbuf_ioctl_def ioctl_push_data_def)
  next
    case (Some ud)
    show ?thesis
    proof (cases "0 < sint (length_qd ud)")
      case False
      then show ?thesis
        using Some by (simp add: ringbuf_ioctl_def ioctl_push_data_def)
    next
      case True
      note nz = scast_pos(3) [OF True]
      have "\<And>kdata. ringbuf_push_locked kdata (scast (length_qd ud)) rbf = Inr (rbf, - ENOSPC)"
        using a nz by (simp add: push_full)
      moreover have "\<And>kdata. ringbuf_push_locked kdata (scast (length_qd ud)) rb_static =
          Inr (rb_static, - ENOSPC)"
        using nz by (rule push_static)
      ultimately show ?thesis
        using Some True
        by (simp add: ringbuf_ioctl_def ioctl_push_data_def split: option.splits)
    qed
  qed
qed

theorem no_buffer_looks_full_witness:
  "ringbuf_push_locked [1, 2] 2 rb_static = Inr (rb_static, - ENOSPC) \<and>
   ringbuf_pop_locked [5, 6] 2 rb_static = Inr (rb_static, [5, 6], 0) \<and>
   ringbuf_push_locked [1, 2] 2
     \<lparr>buf = Some [2, 3, 3, 1], size_rb = 4, head = 2, tail = 2, count = 4\<rparr> =
     Inr (\<lparr>buf = Some [2, 3, 3, 1], size_rb = 4, head = 2, tail = 2, count = 4\<rparr>, - ENOSPC) \<and>
   ringbuf_ioctl SET_SIZE_OF_QUEUE env_nomem rb_w = Return rb_static (- ENOMEM) [1, 2, 3] None"
  using no_buffer_looks_full [where rb = rb_static and len = 2 and kdata = "[1, 2]"
      and out = "[5, 6]"]
  by (simp add: rb_static_def env_nomem_def env_w_def)

text \<open>
  C10. In every state reached from module load by calls of the handler, neither locked
  operation divides by zero, whatever its arguments: when the capacity is 0 the count
  is 0 too, so a push of nonzero length is rejected by the space check, a push of length
  0 and every pop run the loop zero times. No call of the handler traps in such a state.
\<close>

theorem modulo_never_by_zero:
  assumes "run_ioctls calls rb_static = Some rb"
  shows "ringbuf_push_locked kdata len rb \<noteq> Inl DivByZero \<and>
         ringbuf_pop_locked out len rb \<noteq> Inl DivByZero \<and>
         (size_rb rb = 0 \<longrightarrow>
            count rb = 0 \<and>
            (len \<noteq> 0 \<longrightarrow> ringbuf_push_locked kdata len rb = Inr (rb, - ENOSPC)) \<and>
            (len = 0 \<longrightarrow> ringbuf_push_locked kdata len rb = Inr (rb, 0)) \<and>
            ringbuf_pop_locked out len rb = Inr (rb, out, 0)) \<and>
         (\<forall>cmd env f. ringbuf_ioctl cmd env rb \<noteq> Trap f)"
proof -
  have inv: "rb_inv rb"
    using rb_inv_static assms by (rule run_ioctls_inv)
  have z: "size_rb rb = 0 \<longrightarrow>
            count rb = 0 \<and>
            (len \<noteq> 0 \<longrightarrow> ringbuf_push_locked kdata len rb = Inr (rb, - ENOSPC)) \<and>
            (len = 0 \<longrightarrow> ringbuf_push_locked kdata len rb = Inr (rb, 0)) \<and>
            ringbuf_pop_locked out len rb = Inr (rb, out, 0)"
  proof
    assume "size_rb rb = 0"
    then have st: "rb = rb_static"
      using inv by (simp add: rb_inv_size_0)
    have c: "count rb = 0"
      using st by (simp add: rb_static_def)
    have "len \<noteq> 0 \<longrightarrow> ringbuf_push_locked kdata len rb = Inr (rb, - ENOSPC)"
      using \<open>size_rb rb = 0\<close> c by (simp add: push_locked_nospace word_gt_0)
    moreover have "len = 0 \<longrightarrow> ringbuf_push_locked kdata len rb = Inr (rb, 0)"
      using \<open>size_rb rb = 0\<close> c
      by (simp add: ringbuf_push_locked_def push_loop.simps [of kdata 0 0 rb])
    moreover have "ringbuf_pop_locked out len rb = Inr (rb, out, 0)"
      using c by (rule pop_locked_empty)
    ultimately show "count rb = 0 \<and>
            (len \<noteq> 0 \<longrightarrow> ringbuf_push_locked kdata len rb = Inr (rb, - ENOSPC)) \<and>
            (len = 0 \<longrightarrow> ringbuf_push_locked kdata len rb = Inr (rb, 0)) \<and>
            ringbuf_pop_locked out len rb = Inr (rb, out, 0)"
      using c by simp
  qed
  have "\<forall>cmd env f. ringbuf_ioctl cmd env rb \<noteq> Trap f"
    using ringbuf_ioctl_no_trap [OF inv] by blast
  then show ?thesis
    using push_locked_no_div [OF inv] pop_locked_no_div [OF inv] z by (intro conjI)
qed

theorem modulo_never_by_zero_witness:
  "ringbuf_push_locked [1, 2] 2 rb_static = Inr (rb_static, - ENOSPC) \<and>
   ringbuf_pop_locked [5, 6] 2 rb_static = Inr (rb_static, [5, 6], 0) \<and>
   ringbuf_push_locked [7] 1
     \<lparr>buf = Some [1, 2, 3, 0], size_rb = 4, head = 0, tail = 3, count = 3\<rparr> \<noteq> Inl DivByZero \<and>
   ringbuf_pop_locked [0, 0] 2
     \<lparr>buf = Some [1, 2, 3, 0], size_rb = 4, head = 0, tail = 3, count = 3\<rparr> \<noteq> Inl DivByZero"
  using modulo_never_by_zero [where calls = "[]" and rb = rb_static and kdata = "[1, 2]"
      and len = 2 and out = "[5, 6]"]
    modulo_never_by_zero [OF run_calls_w_prefix, where kdata = "[7]" and len = 1
      and out = "[0, 0]"]
    modulo_never_by_zero [OF run_calls_w_prefix, where kdata = "[]" and len = 2
      and out = "[0, 0]"]
  by (simp add: rb_static_def)

end
